theory Spec2Isabelle
  imports Main "HOL-Library.Word"
begin

section \<open>Synthetic multi-digit dataset: the compositor and the sequence sampler\<close>

text \<open>
  The program is \<^verbatim>\<open>src/unchanged_mnist.py\<close>, a Python 2 notebook export. Its core is
  \<^verbatim>\<open>concat_images\<close>, \<^verbatim>\<open>concat_labels\<close> and \<^verbatim>\<open>generate_digit_sequences\<close>.
  Python 2's \<^verbatim>\<open>/\<close> on integers is floor division, which is \<open>div\<close> on \<open>int\<close>.
  NumPy arrays are lists (of lists); a \<^verbatim>\<open>uint8\<close> pixel is an \<open>8 word\<close>.
  Exceptions are values of the type \<open>error\<close>, returned as \<open>Inl\<close>.
\<close>

subsection \<open>Data\<close>

type_synonym pixel = "8 word"
type_synonym image = "pixel list list"

datatype error =
    BroadcastError      \<comment> \<open>ValueError: could not broadcast input array into shape\<close>
  | SampleError         \<comment> \<open>ValueError: sample larger than population\<close>
  | IndexError          \<comment> \<open>IndexError: index out of bounds\<close>
  | NegativeDimensions  \<comment> \<open>ValueError: negative dimensions are not allowed\<close>
  | TypeError           \<comment> \<open>TypeError: the reference holds no array of the expected kind\<close>

text \<open>The module-level constants (lines 112 to 124).\<close>

definition height :: int where "height = 64"
definition width :: int where "width = 64"
definition max_digits :: nat where "max_digits = 5"
definition new_height :: int where "new_height = 12"
definition new_width :: int where "new_width = 12"
definition dataset_size :: int where "dataset_size = 50000"

subsection \<open>NumPy primitives used by the program\<close>

text \<open>\<^verbatim>\<open>np.zeros(shape=(h, w), dtype="uint8")\<close>.\<close>

definition zeros :: "int \<Rightarrow> int \<Rightarrow> image" where
  "zeros h w = replicate (nat h) (replicate (nat w) 0)"

text \<open>The shape of a two-dimensional array.\<close>

definition shape :: "image \<Rightarrow> nat \<times> nat" where
  "shape img = (length img, case img of [] \<Rightarrow> 0 | r # _ \<Rightarrow> length r)"

text \<open>A rectangular array of \<open>h\<close> rows and \<open>w\<close> columns.\<close>

definition is_array :: "nat \<Rightarrow> nat \<Rightarrow> image \<Rightarrow> bool" where
  "is_array h w img \<longleftrightarrow> length img = h \<and> list_all (\<lambda>row. length row = w) img"

text \<open>
  A bound \<open>k\<close> of a slice \<^verbatim>\<open>a[k0:k1]\<close> on an axis of length \<open>len\<close>: a negative bound counts
  from the end, and every bound is clipped to \<open>[0, len]\<close>.
\<close>

definition slice_bound :: "nat \<Rightarrow> int \<Rightarrow> nat" where
  "slice_bound len k = (if k < 0 then nat (max 0 (k + int len)) else min len (nat k))"

text \<open>The indices selected by the slice \<^verbatim>\<open>k0:k1\<close> on an axis of length \<open>len\<close>.\<close>

definition slice_indices :: "nat \<Rightarrow> int \<Rightarrow> int \<Rightarrow> nat list" where
  "slice_indices len k0 k1 = [slice_bound len k0 ..< slice_bound len k1]"

text \<open>
  Broadcasting a two-dimensional source to a target shape: each source dimension equals the
  target's or is 1.
\<close>

definition broadcast_ok :: "nat \<times> nat \<Rightarrow> nat \<times> nat \<Rightarrow> bool" where
  "broadcast_ok src tgt \<longleftrightarrow>
     (fst src = fst tgt \<or> fst src = 1) \<and> (snd src = snd tgt \<or> snd src = 1)"

definition broadcast_at :: "image \<Rightarrow> nat \<Rightarrow> nat \<Rightarrow> pixel" where
  "broadcast_at src r c =
     src ! (if fst (shape src) = 1 then 0 else r) ! (if snd (shape src) = 1 then 0 else c)"

text \<open>
  The slice assignment \<^verbatim>\<open>dst[r0:r1, c0:c1] = src\<close>: it raises when \<open>src\<close> cannot be
  broadcast to the shape of the slice, and otherwise overwrites exactly the selected rows and
  columns.
\<close>

definition set_slice :: "image \<Rightarrow> int \<Rightarrow> int \<Rightarrow> int \<Rightarrow> int \<Rightarrow> image \<Rightarrow> error + image" where
  "set_slice dst r0 r1 c0 c1 src =
     (let h = fst (shape dst); w = snd (shape dst);
          rows = slice_indices h r0 r1;
          cols = slice_indices w c0 c1
      in if broadcast_ok (shape src) (length rows, length cols)
         then Inr (map (\<lambda>r. map (\<lambda>c. if r \<in> set rows \<and> c \<in> set cols
                                        then broadcast_at src (r - hd rows) (c - hd cols)
                                        else dst ! r ! c) [0..<w]) [0..<h])
         else Inl BroadcastError)"

text \<open>
  A \<^verbatim>\<open>for\<close> loop over a list of indices whose body may raise: the first exception leaves
  the loop.
\<close>

fun for_each :: "('i \<Rightarrow> 's \<Rightarrow> error + 's) \<Rightarrow> 'i list \<Rightarrow> 's \<Rightarrow> error + 's" where
  "for_each body [] s = Inr s"
| "for_each body (i # rest) s =
     (case body i s of Inl e \<Rightarrow> Inl e | Inr s' \<Rightarrow> for_each body rest s')"

subsection \<open>\<^verbatim>\<open>concat_images\<close> (lines 141 to 167)\<close>

text \<open>
  \<^verbatim>\<open>imresize(images[i], scale)\<close> is SciPy's; it is the parameter \<open>imresize\<close>, the
  resizing at the fixed \<^verbatim>\<open>scale = 0.45\<close>.
\<close>

definition y_pad :: int where
  "y_pad = (height - new_height) div 2"

definition x_pad :: "nat \<Rightarrow> int" where
  "x_pad num_digits = (width - int num_digits * new_width) div 2"

definition x_offset :: "nat \<Rightarrow> nat \<Rightarrow> int" where
  "x_offset num_digits i = x_pad num_digits + int i * new_width"

text \<open>The body of the loop at lines 155 to 164.\<close>

definition place_digit :: "(image \<Rightarrow> image) \<Rightarrow> image list \<Rightarrow> nat \<Rightarrow> image \<Rightarrow> error + image" where
  "place_digit imresize images i new_image =
     (let scaled = imresize (images ! i);
          xo = x_offset (length images) i
      in set_slice new_image y_pad (height - y_pad) xo (xo + new_width) scaled)"

text \<open>The columns of the canvas that the loop body writes for the glyph at position \<open>i\<close>.\<close>

definition written_columns :: "nat \<Rightarrow> nat \<Rightarrow> nat list" where
  "written_columns num_digits i =
     (let xo = x_offset num_digits i in slice_indices (nat width) xo (xo + new_width))"

definition concat_images :: "(image \<Rightarrow> image) \<Rightarrow> image list \<Rightarrow> error + image" where
  "concat_images imresize images =
     (let num_digits = length images;
          new_image = zeros height width
      in for_each (place_digit imresize images) [0..<num_digits] new_image)"

subsection \<open>\<^verbatim>\<open>concat_labels\<close> (lines 179 to 188)\<close>

definition concat_labels :: "int list \<Rightarrow> nat \<Rightarrow> int list" where
  "concat_labels labels num_images =
     fold (\<lambda>i new_label. new_label[i := (if i < length labels then labels ! i else 10)])
       [0..<num_images] (replicate num_images 0)"

text \<open>
  The compositor is the pair of calls at lines 256 and 257: the canvas of the images and the
  label vector of the labels, \<^verbatim>\<open>num_images\<close> left at its default 5.
\<close>

definition compose :: "(image \<Rightarrow> image) \<Rightarrow> image list \<Rightarrow> int list \<Rightarrow> error + (image \<times> int list)" where
  "compose imresize images labels =
     (case concat_images imresize images of
        Inl e \<Rightarrow> Inl e
      | Inr new_image \<Rightarrow> Inr (new_image, concat_labels labels 5))"

subsection \<open>\<^verbatim>\<open>generate_digit_sequences\<close> (lines 236 to 263)\<close>

text \<open>
  \<^verbatim>\<open>random.sample(range(0, len(data)), i)\<close> is the standard library's. The generator state
  that Python keeps in a global is threaded explicitly: the parameter \<open>sample g n k\<close> returns
  the \<open>k\<close> indices drawn from \<open>range(0, n)\<close> and the next generator state. The library
  raises when the sample is larger than the population, which is written out here.
\<close>

definition random_sample ::
  "('g \<Rightarrow> nat \<Rightarrow> nat \<Rightarrow> nat list \<times> 'g) \<Rightarrow> 'g \<Rightarrow> nat \<Rightarrow> nat \<Rightarrow> error + (nat list \<times> 'g)" where
  "random_sample sample g n k = (if n < k then Inl SampleError else Inr (sample g n k))"

text \<open>Indexing an array with a list of indices, \<^verbatim>\<open>data[selection]\<close>: a copy of the selected rows.\<close>

definition fancy_index :: "'a list \<Rightarrow> nat list \<Rightarrow> error + 'a list" where
  "fancy_index xs selection =
     (if list_all (\<lambda>k. k < length xs) selection then Inr (map (\<lambda>k. xs ! k) selection)
      else Inl IndexError)"

text \<open>
  The label vector is 64-bit and the output array \<^verbatim>\<open>y\<close> is \<^verbatim>\<open>np.int32\<close>: the store
  narrows each entry to 32 bits, two's complement.
\<close>

definition to_int32 :: "int \<Rightarrow> int" where
  "to_int32 v = sint (word_of_int v :: 32 word)"

text \<open>\<^verbatim>\<open>np.expand_dims(X, axis=3)\<close>: every pixel becomes a one-element channel axis.\<close>

definition expand_dims :: "image list \<Rightarrow> pixel list list list list" where
  "expand_dims X = map (map (map (\<lambda>p. [p]))) X"

text \<open>
  The state of the two loops: the generator state, the arrays \<^verbatim>\<open>X\<close> and \<^verbatim>\<open>y\<close>, and, as
  a ghost field that the program does not keep, the selections drawn so far in order.
\<close>

record 'g gen_state =
  rng :: 'g
  X_arr :: "image list"
  y_arr :: "int list list"
  drawn :: "nat list list"

text \<open>The body of the inner loop (lines 252 to 257) for sequence length \<open>i\<close> and row \<open>j\<close>.\<close>

definition sample_body ::
  "('g \<Rightarrow> nat \<Rightarrow> nat \<Rightarrow> nat list \<times> 'g) \<Rightarrow> (image \<Rightarrow> image) \<Rightarrow> image list \<Rightarrow> int list
     \<Rightarrow> nat \<Rightarrow> nat \<Rightarrow> 'g gen_state \<Rightarrow> error + 'g gen_state" where
  "sample_body sample imresize data labels i j s =
     (case random_sample sample (rng s) (length data) i of
        Inl e \<Rightarrow> Inl e
      | Inr (selection, g') \<Rightarrow>
     (case fancy_index data selection of
        Inl e \<Rightarrow> Inl e
      | Inr images \<Rightarrow>
     (case concat_images imresize images of
        Inl e \<Rightarrow> Inl e
      | Inr new_image \<Rightarrow>
     (if \<not> j < length (X_arr s) then Inl IndexError
      else
     (case fancy_index labels selection of
        Inl e \<Rightarrow> Inl e
      | Inr ls \<Rightarrow>
     (if \<not> j < length (y_arr s) then Inl IndexError
      else Inr (s\<lparr>rng := g',
                   X_arr := (X_arr s)[j := new_image],
                   y_arr := (y_arr s)[j := map to_int32 (concat_labels ls 5)],
                   drawn := drawn s @ [selection]\<rparr>)))))))"

text \<open>
  The two nested loops, from freshly allocated arrays: the state when they finish, or the
  exception that left them.
\<close>

definition generate_state ::
  "('g \<Rightarrow> nat \<Rightarrow> nat \<Rightarrow> nat list \<times> 'g) \<Rightarrow> (image \<Rightarrow> image) \<Rightarrow> 'g \<Rightarrow> image list \<Rightarrow> int list
     \<Rightarrow> int \<Rightarrow> error + 'g gen_state" where
  "generate_state sample imresize g data labels n =
     (if n < 0 then Inl NegativeDimensions
      else
        let X = replicate (nat n) (zeros height width);
            y = replicate (nat n) (replicate max_digits 0);
            n_samples = nat (n div int max_digits)
        in for_each
             (\<lambda>i. for_each (sample_body sample imresize data labels i)
                    [(i - 1) * n_samples..<i * n_samples])
             [1..<max_digits + 1]
             \<lparr>rng = g, X_arr = X, y_arr = y, drawn = []\<rparr>)"

definition generate_digit_sequences ::
  "('g \<Rightarrow> nat \<Rightarrow> nat \<Rightarrow> nat list \<times> 'g) \<Rightarrow> (image \<Rightarrow> image) \<Rightarrow> 'g \<Rightarrow> image list \<Rightarrow> int list
     \<Rightarrow> int \<Rightarrow> error + (pixel list list list list \<times> int list list)" where
  "generate_digit_sequences sample imresize g data labels n =
     (case generate_state sample imresize g data labels n of
        Inl e \<Rightarrow> Inl e
      | Inr s \<Rightarrow> Inr (expand_dims (X_arr s), y_arr s))"

text \<open>
  The state the loops start from, and the outer loop run over a list of sequence lengths:
  \<open>generate_state\<close> is \<open>run_groups\<close> over all lengths from \<open>initial_state\<close>, so a prefix
  of the lengths gives the state in which the next group begins.
\<close>

definition initial_state :: "'g \<Rightarrow> int \<Rightarrow> 'g gen_state" where
  "initial_state g n =
     \<lparr>rng = g, X_arr = replicate (nat n) (zeros height width),
      y_arr = replicate (nat n) (replicate max_digits 0), drawn = []\<rparr>"

definition run_groups ::
  "('g \<Rightarrow> nat \<Rightarrow> nat \<Rightarrow> nat list \<times> 'g) \<Rightarrow> (image \<Rightarrow> image) \<Rightarrow> image list \<Rightarrow> int list
     \<Rightarrow> int \<Rightarrow> nat list \<Rightarrow> 'g gen_state \<Rightarrow> error + 'g gen_state" where
  "run_groups sample imresize data labels n lengths s =
     for_each
       (\<lambda>i. for_each (sample_body sample imresize data labels i)
              [(i - 1) * nat (n div int max_digits)..<i * nat (n div int max_digits)])
       lengths s"

text \<open>The number of real digits of a label vector: its entries other than the sentinel 10.\<close>

definition real_digits :: "int list \<Rightarrow> nat" where
  "real_digits label = length (filter (\<lambda>v. v \<noteq> 10) label)"

subsection \<open>The corpus and the sampler that the claims assume\<close>

text \<open>
  What the corpus provider promises: as many labels as images, at least \<open>max_digits\<close> glyphs,
  every glyph scaling to 12 x 12, every label a digit.
\<close>

definition valid_corpus :: "(image \<Rightarrow> image) \<Rightarrow> image list \<Rightarrow> int list \<Rightarrow> bool" where
  "valid_corpus imresize data labels \<longleftrightarrow>
     length data = length labels \<and> max_digits \<le> length data
     \<and> list_all (\<lambda>img. is_array (nat new_height) (nat new_width) (imresize img)) data
     \<and> list_all (\<lambda>l. 0 \<le> l \<and> l \<le> 9) labels"

text \<open>
  What \<^verbatim>\<open>random.sample\<close> promises for a sample no larger than the population: \<open>k\<close>
  pairwise distinct elements of \<open>range(0, n)\<close>.
\<close>

definition sample_ok :: "('g \<Rightarrow> nat \<Rightarrow> nat \<Rightarrow> nat list \<times> 'g) \<Rightarrow> bool" where
  "sample_ok sample \<longleftrightarrow>
     (\<forall>g n k. k \<le> n \<longrightarrow>
        distinct (fst (sample g n k)) \<and> length (fst (sample g n k)) = k
        \<and> list_all (\<lambda>x. x < n) (fst (sample g n k)))"

text \<open>A concrete sampler for the instances below: the first \<open>k\<close> indices after a rotation.\<close>

definition rotating_sample :: "nat \<Rightarrow> nat \<Rightarrow> nat \<Rightarrow> nat list \<times> nat" where
  "rotating_sample g n k = (take k (rotate g [0..<n]), Suc g)"

text \<open>
  The invariant of the two loops after \<open>k\<close> rows: row \<open>j < k\<close> holds the canvas and the label
  vector of the \<open>j\<close>-th selection, which has \<open>j div n_samples + 1\<close> distinct indices; every later
  row is as allocated.
\<close>

definition filled ::
  "(image \<Rightarrow> image) \<Rightarrow> image list \<Rightarrow> int list \<Rightarrow> nat \<Rightarrow> nat \<Rightarrow> nat \<Rightarrow> 'g gen_state \<Rightarrow> bool" where
  "filled imresize data labels N n_samples k s \<longleftrightarrow>
     length (X_arr s) = N \<and> length (y_arr s) = N \<and> length (drawn s) = k
     \<and> (\<forall>j<k. distinct (drawn s ! j) \<and> length (drawn s ! j) = j div n_samples + 1
             \<and> list_all (\<lambda>x. x < length data) (drawn s ! j)
             \<and> concat_images imresize (map (\<lambda>x. data ! x) (drawn s ! j)) = Inr (X_arr s ! j)
             \<and> y_arr s ! j = map to_int32 (concat_labels (map (\<lambda>x. labels ! x) (drawn s ! j)) 5))
     \<and> (\<forall>j. k \<le> j \<and> j < N \<longrightarrow>
             X_arr s ! j = zeros height width \<and> y_arr s ! j = replicate max_digits 0)"

subsection \<open>Glyphs of the expected size, and concrete inputs\<close>

text \<open>
  The notebook scales every 28 x 28 glyph to 12 x 12 (lines 117 to 121): the resizing is
  assumed to return an array of \<open>new_height\<close> rows and \<open>new_width\<close> columns.
\<close>

definition scales_to_glyph :: "(image \<Rightarrow> image) \<Rightarrow> image \<Rightarrow> bool" where
  "scales_to_glyph imresize img \<longleftrightarrow> is_array (nat new_height) (nat new_width) (imresize img)"

text \<open>
  A concrete nearest-neighbour resizing to 45 percent and a flat 28 x 28 glyph, the inputs at
  which the theorems below are instantiated.
\<close>

definition nearest_resize :: "image \<Rightarrow> image" where
  "nearest_resize img =
     (let h = fst (shape img); w = snd (shape img)
      in map (\<lambda>r. map (\<lambda>c. img ! (r * 100 div 45) ! (c * 100 div 45)) [0..<45 * w div 100])
           [0..<45 * h div 100])"

definition glyph :: "pixel \<Rightarrow> image" where
  "glyph v = replicate 28 (replicate 28 v)"

text \<open>
  The canvas after the first \<open>k\<close> iterations of the loop of \<^verbatim>\<open>concat_images\<close>, pixel by
  pixel: the closed form that the loop invariant maintains.
\<close>

definition canvas_after :: "(image \<Rightarrow> image) \<Rightarrow> image list \<Rightarrow> nat \<Rightarrow> image" where
  "canvas_after imresize images k =
     (let xp = nat (x_pad (length images)) in
      map (\<lambda>r. map (\<lambda>c. if 26 \<le> r \<and> r < 38 \<and> xp \<le> c \<and> c < xp + 12 * k
                          then imresize (images ! ((c - xp) div 12)) ! (r - 26) ! ((c - xp) mod 12)
                          else 0) [0..<64]) [0..<64])"

subsection \<open>The compositor on a store of arrays\<close>

text \<open>
  To speak about side effects the arrays are put in a store: a reference is an index of the
  store and an allocation appends to it. \<^verbatim>\<open>concat_images\<close> and \<^verbatim>\<open>concat_labels\<close> are the
  same code as above, reading their argument through its reference at every use and writing
  the array they allocate. The resizing is a function of the glyph alone, as SciPy's is.
\<close>

datatype ndarray = Images "image list" | Canvas image | Labels "int list"

type_synonym store = "ndarray list"

definition deref :: "store \<Rightarrow> nat \<Rightarrow> ndarray option" where
  "deref h a = (if a < length h then Some (h ! a) else None)"

definition alloc :: "store \<Rightarrow> ndarray \<Rightarrow> nat \<times> store" where
  "alloc h v = (length h, h @ [v])"

text \<open>The loop body of \<^verbatim>\<open>concat_images\<close>: it reads \<^verbatim>\<open>images\<close> and writes \<^verbatim>\<open>new_image\<close>.\<close>

definition place_digit_st :: "(image \<Rightarrow> image) \<Rightarrow> nat \<Rightarrow> nat \<Rightarrow> nat \<Rightarrow> store \<Rightarrow> error + store" where
  "place_digit_st imresize images_ref new_image_ref i h =
     (case (deref h images_ref, deref h new_image_ref) of
        (Some (Images images), Some (Canvas new_image)) \<Rightarrow>
          (case place_digit imresize images i new_image of
             Inl e \<Rightarrow> Inl e
           | Inr written \<Rightarrow> Inr (h[new_image_ref := Canvas written]))
      | _ \<Rightarrow> Inl TypeError)"

definition concat_images_st :: "(image \<Rightarrow> image) \<Rightarrow> nat \<Rightarrow> store \<Rightarrow> error + (nat \<times> store)" where
  "concat_images_st imresize images_ref h =
     (case deref h images_ref of
        Some (Images images) \<Rightarrow>
          (let num_digits = length images;
               (new_image_ref, h1) = alloc h (Canvas (zeros height width))
           in case for_each (place_digit_st imresize images_ref new_image_ref) [0..<num_digits] h1 of
                Inl e \<Rightarrow> Inl e
              | Inr h2 \<Rightarrow> Inr (new_image_ref, h2))
      | _ \<Rightarrow> Inl TypeError)"

text \<open>The loop body of \<^verbatim>\<open>concat_labels\<close>: it reads \<^verbatim>\<open>labels\<close> and writes \<^verbatim>\<open>new_label\<close>.\<close>

definition set_label_st :: "nat \<Rightarrow> nat \<Rightarrow> nat \<Rightarrow> store \<Rightarrow> store" where
  "set_label_st labels_ref new_label_ref i h =
     (case (deref h labels_ref, deref h new_label_ref) of
        (Some (Labels labels), Some (Labels new_label)) \<Rightarrow>
          h[new_label_ref := Labels (new_label[i := (if i < length labels then labels ! i else 10)])]
      | _ \<Rightarrow> h)"

definition concat_labels_st :: "nat \<Rightarrow> nat \<Rightarrow> store \<Rightarrow> error + (nat \<times> store)" where
  "concat_labels_st labels_ref num_images h =
     (case deref h labels_ref of
        Some (Labels labels) \<Rightarrow>
          (let (new_label_ref, h1) = alloc h (Labels (replicate num_images 0))
           in Inr (new_label_ref, fold (set_label_st labels_ref new_label_ref) [0..<num_images] h1))
      | _ \<Rightarrow> Inl TypeError)"

text \<open>The two calls at lines 256 and 257, one after the other on the same store.\<close>

definition compose_st :: "(image \<Rightarrow> image) \<Rightarrow> nat \<Rightarrow> nat \<Rightarrow> store \<Rightarrow> error + (nat \<times> nat \<times> store)" where
  "compose_st imresize images_ref labels_ref h =
     (case concat_images_st imresize images_ref h of
        Inl e \<Rightarrow> Inl e
      | Inr (canvas_ref, h1) \<Rightarrow>
          (case concat_labels_st labels_ref 5 h1 of
             Inl e \<Rightarrow> Inl e
           | Inr (label_ref, h2) \<Rightarrow> Inr (canvas_ref, label_ref, h2)))"

section \<open>Properties\<close>

subsection \<open>Loops and label vectors\<close>

lemma for_each_upt:
  assumes "Inv a s"
    and "\<And>k s. a \<le> k \<Longrightarrow> k < b \<Longrightarrow> Inv k s \<Longrightarrow> \<exists>s'. body k s = Inr s' \<and> Inv (Suc k) s'"
    and "a \<le> b"
  shows "\<exists>s'. for_each body [a..<b] s = Inr s' \<and> Inv b s'"
  using assms
proof (induction "b - a" arbitrary: a s)
  case 0
  then show ?case by simp
next
  case (Suc n)
  then have ab: "a < b" by simp
  from Suc.prems(2)[of a s] Suc.prems(1) ab obtain s1 where s1: "body a s = Inr s1" "Inv (Suc a) s1" by auto
  have "\<exists>s'. for_each body [Suc a..<b] s1 = Inr s' \<and> Inv b s'"
    using Suc.hyps(1)[of "Suc a" s1] Suc.hyps(2) s1(2) Suc.prems(2) ab by simp
  then show ?case using ab s1 by (simp add: upt_conv_Cons)
qed

lemma concat_labels_fold:
  "k \<le> n \<Longrightarrow> fold (\<lambda>i new_label. new_label[i := f i]) [0..<k] (replicate n z) = map f [0..<k] @ replicate (n - k) z"
proof (induction k)
  case 0
  then show ?case by simp
next
  case (Suc k)
  then have "fold (\<lambda>i new_label. new_label[i := f i]) [0..<Suc k] (replicate n z) = (map f [0..<k] @ replicate (n - k) z)[k := f k]"
    by simp
  also have "\<dots> = map f [0..<k] @ (replicate (n - k) z)[0 := f k]"
    by (simp add: list_update_append)
  also have "replicate (n - k) z = z # replicate (n - Suc k) z"
    using Suc.prems by (cases "n - k") (auto simp: Suc_diff_Suc)
  finally show ?case by simp
qed

lemma concat_labels_eq:
  "concat_labels labels n = map (\<lambda>i. if i < length labels then labels ! i else 10) [0..<n]"
  unfolding concat_labels_def by (simp add: concat_labels_fold)

subsection \<open>The canvas\<close>

lemma y_pad_eq: "y_pad = 26" "height - 26 = 38"
  by (simp_all add: y_pad_def height_def new_height_def)

lemma x_pad_eq: "x_pad n = 32 - 6 * int n"
  by (simp add: x_pad_def width_def new_width_def)

lemma slice_bound_int: "slice_bound len (int m) = min len m"
  by (simp add: slice_bound_def)

lemma slice_indices_int: "slice_indices len (int a) (int a + int d) = [min len a..<min len (a + d)]"
  using slice_bound_int[of len "a + d"] by (simp add: slice_indices_def slice_bound_int)

lemma shape_grid: "0 < h \<Longrightarrow> shape (map (\<lambda>r. map (g r) [0..<w]) [0..<h]) = (h, w)"
  by (simp add: shape_def list.case_eq_if hd_map)

lemma shape_canvas_after: "shape (canvas_after f images k) = (64, 64)"
  unfolding canvas_after_def Let_def by (rule shape_grid) simp

lemma shape_is_array: "is_array h w img \<Longrightarrow> 0 < h \<Longrightarrow> shape img = (h, w)"
  by (cases img) (auto simp: shape_def is_array_def)

lemma canvas_after_0: "canvas_after f images 0 = zeros height width"
  by (auto simp: canvas_after_def zeros_def height_def width_def Let_def list_eq_iff_nth_eq)

lemma place_digit_step:
  assumes n: "length images \<le> 5" and k: "k < length images"
    and sc: "is_array 12 12 (imresize (images ! k))"
  shows "place_digit imresize images k (canvas_after imresize images k)
         = Inr (canvas_after imresize images (Suc k))"
proof -
  define xp where "xp = nat (x_pad (length images))"
  have xp: "x_pad (length images) = int xp" "xp + 12 * length images \<le> 62" "2 \<le> xp"
    using n by (simp_all add: xp_def x_pad_eq)
  have xo: "x_offset (length images) k = int (xp + 12 * k)"
    by (simp add: x_offset_def xp new_width_def)
  have le: "xp + 12 * k + 12 \<le> 64" using xp k by simp
  have sb: "slice_indices 64 26 38 = [26..<38]"
    "slice_indices 64 (int (xp + 12 * k)) (int (xp + 12 * k) + 12) = [xp + 12 * k..<xp + 12 * k + 12]"
    using le slice_indices_int[of 64 26 12] slice_indices_int[of 64 "xp + 12 * k" 12]
    by simp_all
  have sh: "shape (imresize (images ! k)) = (12, 12)"
    using shape_is_array[OF sc] by simp
  have hd: "hd [26..<38::nat] = 26" "hd [xp + 12 * k..<xp + 12 * k + 12] = xp + 12 * k"
    by simp_all
  have mem: "i \<in> set [a..<b] \<longleftrightarrow> a \<le> i \<and> i < b" for i a b :: nat
    by auto
  have px: "(if (26 \<le> r \<and> r < 38) \<and> (xp + 12 * k \<le> c \<and> c < xp + 12 * k + 12)
             then broadcast_at (imresize (images ! k)) (r - 26) (c - (xp + 12 * k))
             else canvas_after imresize images k ! r ! c)
            = (if 26 \<le> r \<and> r < 38 \<and> xp \<le> c \<and> c < xp + 12 * Suc k
               then imresize (images ! ((c - xp) div 12)) ! (r - 26) ! ((c - xp) mod 12)
               else 0)" if "r < 64" "c < 64" for r c
  proof (cases "26 \<le> r \<and> r < 38 \<and> xp + 12 * k \<le> c \<and> c < xp + 12 * k + 12")
    case True
    then obtain d where d: "c = xp + 12 * k + d" "d < 12"
      by (metis add.commute le_Suc_ex nat_add_left_cancel_less add.assoc)
    have "(c - xp) div 12 = k" "(c - xp) mod 12 = d" "c - (xp + 12 * k) = d"
      using d by simp_all
    then show ?thesis using True sh by (simp add: broadcast_at_def)
  next
    case False
    then show ?thesis using that
      by (auto simp: canvas_after_def Let_def xp_def[symmetric])
  qed
  show ?thesis
    unfolding place_digit_def Let_def set_slice_def shape_canvas_after y_pad_eq xo new_width_def
    apply (simp only: fst_conv snd_conv sb sh mem hd)
    apply (simp add: broadcast_ok_def)
    apply (subst (2) canvas_after_def)
    apply (simp only: Let_def xp_def[symmetric])
    apply (rule map_cong[OF refl])
    apply (rule map_cong[OF refl])
    using px apply simp
    done
qed


lemma shape_replicate: "0 < h \<Longrightarrow> shape (replicate h row) = (h, length row)"
  by (simp add: shape_def list.case_eq_if)

lemma scales_to_glyph_nearest: "scales_to_glyph nearest_resize (glyph v)"
  by (simp add: scales_to_glyph_def nearest_resize_def glyph_def shape_replicate is_array_def
      new_height_def new_width_def list_all_iff)

lemma scales_nth:
  "list_all (scales_to_glyph imresize) images \<Longrightarrow> k < length images \<Longrightarrow> is_array 12 12 (imresize (images ! k))"
  by (simp add: list_all_length scales_to_glyph_def new_height_def new_width_def)

lemma concat_images_eq:
  assumes "length images \<le> 5" "list_all (scales_to_glyph imresize) images"
  shows "concat_images imresize images = Inr (canvas_after imresize images (length images))"
proof -
  have "\<exists>s'. for_each (place_digit imresize images) [0..<length images] (zeros height width) = Inr s'
          \<and> s' = canvas_after imresize images (length images)"
  proof (rule for_each_upt[where Inv = "\<lambda>k s. s = canvas_after imresize images k"])
    show "zeros height width = canvas_after imresize images 0" by (simp add: canvas_after_0)
  next
    fix k s assume "k < length images" "s = canvas_after imresize images k"
    then show "\<exists>s'. place_digit imresize images k s = Inr s' \<and> s' = canvas_after imresize images (Suc k)"
      using place_digit_step[of images k imresize] assms(1) scales_nth[OF assms(2), of k] by simp
  qed simp
  then show ?thesis by (simp add: concat_images_def)
qed

lemma canvas_after_nth:
  "r < 64 \<Longrightarrow> c < 64 \<Longrightarrow> canvas_after f images k ! r ! c =
     (if 26 \<le> r \<and> r < 38 \<and> nat (x_pad (length images)) \<le> c \<and> c < nat (x_pad (length images)) + 12 * k
      then f (images ! ((c - nat (x_pad (length images))) div 12)) ! (r - 26) ! ((c - nat (x_pad (length images))) mod 12)
      else 0)"
  by (simp add: canvas_after_def Let_def)

lemma is_array_canvas_after: "is_array 64 64 (canvas_after f images k)"
  by (simp add: is_array_def canvas_after_def Let_def list_all_iff)

lemma for_each_fails:
  assumes "Inv s"
    and "\<And>i s s'. Inv s \<Longrightarrow> body i s = Inr s' \<Longrightarrow> Inv s'"
    and "\<And>i s e'. body i s = Inl e' \<Longrightarrow> e' = e"
    and "i \<in> set todo"
    and "\<And>s. Inv s \<Longrightarrow> body i s = Inl e"
  shows "for_each body todo s = Inl e"
  using assms(1,4)
proof (induction todo arbitrary: s)
  case Nil
  then show ?case by simp
next
  case (Cons j todo)
  show ?case
  proof (cases "body j s")
    case (Inl e')
    then show ?thesis using assms(3) by simp
  next
    case (Inr s')
    then have inv: "Inv s'" using assms(2) Cons.prems(1) by blast
    show ?thesis
    proof (cases "i = j")
      case True
      then show ?thesis using assms(5)[OF Cons.prems(1)] Inr by simp
    next
      case False
      then show ?thesis using Cons.IH[OF inv] Cons.prems(2) Inr by simp
    qed
  qed
qed

lemma place_digit_error: "place_digit f images i s = Inl e \<Longrightarrow> e = BroadcastError"
  by (auto simp: place_digit_def set_slice_def Let_def split: if_splits)

lemma set_slice_shape:
  assumes "set_slice dst r0 r1 c0 c1 src = Inr d'" "0 < fst (shape dst)"
  shows "shape d' = shape dst"
proof -
  from assms(1) have "d' = map (\<lambda>r. map (\<lambda>c. if r \<in> set (slice_indices (fst (shape dst)) r0 r1)
          \<and> c \<in> set (slice_indices (snd (shape dst)) c0 c1)
        then broadcast_at src (r - hd (slice_indices (fst (shape dst)) r0 r1))
               (c - hd (slice_indices (snd (shape dst)) c0 c1))
        else dst ! r ! c) [0..<snd (shape dst)]) [0..<fst (shape dst)]"
    by (simp add: set_slice_def Let_def split: if_splits)
  then show ?thesis using assms(2) by (simp add: shape_grid)
qed

lemma place_digit_shape:
  assumes "shape s = (64, 64)" "place_digit f images i s = Inr s'"
  shows "shape s' = (64, 64)"
  using set_slice_shape[of s] assms by (simp add: place_digit_def Let_def)

lemma place_last_fails:
  assumes "5 < length images" "shape s = (64, 64)"
    and "is_array 12 12 (imresize (images ! (length images - 1)))"
  shows "place_digit imresize images (length images - 1) s = Inl BroadcastError"
proof -
  define n where "n = length images"
  have xo: "x_offset n (n - 1) = int (20 + 6 * n)"
    using assms(1) by (simp add: x_offset_def x_pad_eq new_width_def n_def nat_diff_distrib' of_nat_diff)
  have "slice_indices 64 (int (20 + 6 * n)) (int (20 + 6 * n) + int 12)
        = [min 64 (20 + 6 * n)..<min 64 (20 + 6 * n + 12)]"
    by (rule slice_indices_int)
  then have len: "length (slice_indices 64 (int (20 + 6 * n)) (int (20 + 6 * n) + 12)) \<le> 8"
    using assms(1) by (simp add: n_def)
  have sh: "shape (imresize (images ! (n - 1))) = (12, 12)"
    using shape_is_array[OF assms(3)] by (simp add: n_def)
  show ?thesis
    unfolding place_digit_def Let_def set_slice_def n_def[symmetric] xo assms(2) sh new_width_def
    using len by (auto simp: broadcast_ok_def)
qed

lemma shape_zeros: "shape (zeros height width) = (64, 64)"
  by (simp add: shape_def zeros_def height_def width_def list.case_eq_if)

lemma concat_images_too_many:
  assumes "5 < length images" "list_all (scales_to_glyph imresize) images"
  shows "concat_images imresize images = Inl BroadcastError"
  unfolding concat_images_def Let_def
proof (rule for_each_fails[where Inv = "\<lambda>s. shape s = (64, 64)" and i = "length images - 1"])
  show "shape (zeros height width) = (64, 64)" by (rule shape_zeros)
  show "length images - 1 \<in> set [0..<length images]" using assms(1) by simp
  show "\<And>s. shape s = (64, 64) \<Longrightarrow> place_digit imresize images (length images - 1) s = Inl BroadcastError"
    using place_last_fails[OF assms(1)] scales_nth[OF assms(2), of "length images - 1"] assms(1) by simp
qed (auto dest: place_digit_error place_digit_shape)


lemma labels_prefix:
  assumes "n = length labels" "n \<le> m"
  shows "take n (map (\<lambda>i. if i < length labels then labels ! i else (10::int)) [0..<m]) = labels"
proof -
  have "take n (map (\<lambda>i. if i < length labels then labels ! i else (10::int)) [0..<m])
        = map (\<lambda>i. if i < length labels then labels ! i else 10) [0..<length labels]"
    using assms by (simp add: take_map)
  also have "\<dots> = map (\<lambda>i. labels ! i) [0..<length labels]"
    by (rule map_cong) simp_all
  also have "\<dots> = labels" by (rule map_nth)
  finally show ?thesis .
qed

lemma labels_suffix:
  assumes "n = length labels"
  shows "drop n (map (\<lambda>i. if i < length labels then labels ! i else (10::int)) [0..<m]) = replicate (m - n) 10"
proof -
  have "drop n (map (\<lambda>i. if i < length labels then labels ! i else (10::int)) [0..<m])
        = map (\<lambda>i. if i < length labels then labels ! i else 10) [n..<m]"
    by (simp add: drop_map)
  also have "\<dots> = map (\<lambda>i. 10) [n..<m]"
    using assms by (intro map_cong) simp_all
  also have "\<dots> = replicate (m - n) 10" by (simp add: map_replicate_const)
  finally show ?thesis .
qed

subsection \<open>Claims about the compositor\<close>

text \<open>
  Claim C1. For between 1 and \<open>max_digits\<close> images, as many labels as images, and glyphs
  that scale to 12 x 12, the compositor returns a canvas of exactly 64 rows of 64 pixels and a
  label vector of exactly \<open>max_digits = 5\<close> slots: the first slots are the input labels in
  order and every remaining slot is the sentinel 10.
\<close>

theorem compose_canvas_and_labels:
  assumes "1 \<le> length images" and "length images \<le> max_digits"
    and "length images = length labels"
    and "list_all (scales_to_glyph imresize) images"
  shows "\<exists>canvas label. compose imresize images labels = Inr (canvas, label)
           \<and> is_array (nat height) (nat width) canvas
           \<and> length label = max_digits
           \<and> take (length images) label = labels
           \<and> drop (length images) label = replicate (max_digits - length images) 10"
proof -
  have n: "length images \<le> 5" using assms(2) by (simp add: max_digits_def)
  have c: "concat_images imresize images = Inr (canvas_after imresize images (length images))"
    by (rule concat_images_eq[OF n assms(4)])
  have a: "is_array (nat height) (nat width) (canvas_after imresize images (length images))"
    using is_array_canvas_after by (simp add: height_def width_def)
  show ?thesis
    using a n assms(3) labels_prefix[of "length images" labels 5] labels_suffix[of "length images" labels 5]
    by (simp add: compose_def c concat_labels_eq max_digits_def)
qed

theorem compose_canvas_and_labels_witness:
  "1 \<le> length [glyph 1, glyph 2] \<and> length [glyph 1, glyph 2] \<le> max_digits
   \<and> length [glyph 1, glyph 2] = length [3, 7 :: int]
   \<and> list_all (scales_to_glyph nearest_resize) [glyph 1, glyph 2]
   \<and> (\<exists>canvas. compose nearest_resize [glyph 1, glyph 2] [3, 7] = Inr (canvas, [3, 7, 10, 10, 10])
         \<and> is_array (nat height) (nat width) canvas)"
proof -
  have h: "1 \<le> length [glyph 1, glyph 2]" "length [glyph 1, glyph 2] \<le> max_digits"
    "length [glyph 1, glyph 2] = length [3, 7 :: int]"
    "list_all (scales_to_glyph nearest_resize) [glyph 1, glyph 2]"
    by (simp_all add: max_digits_def scales_to_glyph_nearest)
  from compose_canvas_and_labels[OF h] obtain canvas label where
    r: "compose nearest_resize [glyph 1, glyph 2] [3, 7] = Inr (canvas, label)"
      "is_array (nat height) (nat width) canvas"
      "take (length [glyph 1, glyph 2]) label = [3, 7]"
      "drop (length [glyph 1, glyph 2]) label = replicate (max_digits - length [glyph 1, glyph 2]) 10"
    by blast
  have l2: "length [glyph 1, glyph 2] = 2" by simp
  have rep: "replicate (max_digits - 2) (10::int) = [10, 10, 10]"
    by (simp add: max_digits_def numeral_3_eq_3)
  note t = r(3)[unfolded l2] and d = r(4)[unfolded l2 rep]
  have "label = take 2 label @ drop 2 label" by simp
  then have "label = [3, 7, 10, 10, 10]" by (simp only: t d append.simps)
  then show ?thesis using h r(1,2) by simp
qed

lemma compose_ok:
  assumes "length images \<le> max_digits" "list_all (scales_to_glyph imresize) images"
  shows "compose imresize images labels
         = Inr (canvas_after imresize images (length images),
                map (\<lambda>i. if i < length labels then labels ! i else 10) [0..<5])"
  using concat_images_eq[of images imresize] assms
  by (simp add: compose_def concat_labels_eq max_digits_def)

lemma written_rows: "slice_indices (nat height) y_pad (height - y_pad) = [nat y_pad..<nat (y_pad + new_height)]"
  using slice_indices_int[of 64 26 12]
  by (simp add: y_pad_eq height_def new_height_def)

lemma x_pad_nat:
  assumes "num \<le> 5"
  obtains a where "x_pad num = int a" "a + 12 * num \<le> 62" "a = 32 - 6 * num"
proof
  show "x_pad num = int (32 - 6 * num)" using assms by (simp add: x_pad_eq)
  show "32 - 6 * num + 12 * num \<le> 62" using assms by simp
qed simp

lemma written_columns_nat:
  assumes "x_pad num = int a" "a + 12 * num \<le> 62" "i < num"
  shows "written_columns num i = [a + 12 * i..<a + 12 * i + 12]"
proof -
  have xo: "x_offset num i = int (a + 12 * i)"
    by (simp add: x_offset_def assms(1) new_width_def)
  have "a + 12 * i + 12 \<le> 64" using assms(2,3) by simp
  then have "slice_indices 64 (int (a + 12 * i)) (int (a + 12 * i) + int 12) = [a + 12 * i..<a + 12 * i + 12]"
    by (simp only: slice_indices_int) simp
  then show ?thesis
    by (simp add: written_columns_def Let_def xo width_def new_width_def)
qed

text \<open>
  Claim C3. For at most \<open>max_digits\<close> images, the scaled glyph at position \<open>i\<close> lies in the
  canvas at rows \<open>[y_pad, y_pad + new_height)\<close> and columns
  \<open>[x_pad + i * new_width, x_pad + (i + 1) * new_width)\<close>, pixel for pixel, where
  \<open>y_pad = (height - new_height) div 2\<close> and \<open>x_pad = (width - num * new_width) div 2\<close>. These
  are the rows and columns that the slice assignment selects. For one glyph the padding is 26
  pixels on each of the four sides.
\<close>

theorem glyph_placement:
  assumes "length images \<le> max_digits" and "list_all (scales_to_glyph imresize) images"
    and "i < length images" and "r < nat new_height" and "c < nat new_width"
  shows "\<exists>canvas label. compose imresize images labels = Inr (canvas, label)
           \<and> canvas ! (nat y_pad + r) ! (nat (x_pad (length images)) + i * nat new_width + c)
               = imresize (images ! i) ! r ! c
           \<and> slice_indices (nat height) y_pad (height - y_pad) = [nat y_pad..<nat (y_pad + new_height)]
           \<and> written_columns (length images) i
               = [nat (x_pad (length images) + int i * new_width)
                  ..<nat (x_pad (length images) + (int i + 1) * new_width)]
           \<and> y_pad = (height - new_height) div 2
           \<and> x_pad (length images) = (width - int (length images) * new_width) div 2
           \<and> y_pad = 26 \<and> height - (y_pad + new_height) = 26
           \<and> x_pad 1 = 26 \<and> width - (x_pad 1 + new_width) = 26"
proof -
  define n where "n = length images"
  have n: "n \<le> 5" "i < n" using assms(1,3) by (simp_all add: max_digits_def n_def)
  have rc: "r < 12" "c < 12" using assms(4,5) by (simp_all add: new_height_def new_width_def)
  from x_pad_nat[OF n(1)] obtain a where a: "x_pad n = int a" "a + 12 * n \<le> 62" by metis
  have le: "a + 12 * i + 12 \<le> 62" using n a(2) by simp
  have dm: "(a + 12 * i + c - a) div 12 = i" "(a + 12 * i + c - a) mod 12 = c"
    using rc by simp_all
  have "canvas_after imresize images n ! (26 + r) ! (a + 12 * i + c)
        = imresize (images ! i) ! r ! c"
    using canvas_after_nth[of "26 + r" "a + 12 * i + c" imresize images n] rc n le
    by (simp add: n_def[symmetric] a(1) dm)
  then have px: "canvas_after imresize images n ! (nat y_pad + r) ! (nat (x_pad n) + i * nat new_width + c)
        = imresize (images ! i) ! r ! c"
    by (simp add: y_pad_eq a(1) new_width_def mult.commute)
  have "x_pad n + int i * new_width = int (a + 12 * i)"
    "x_pad n + (int i + 1) * new_width = int (a + 12 * i + 12)"
    by (simp_all add: a(1) new_width_def algebra_simps)
  then have cols: "written_columns n i
      = [nat (x_pad n + int i * new_width)..<nat (x_pad n + (int i + 1) * new_width)]"
    using written_columns_nat[OF a n(2)] by (simp only: nat_int)
  have pads: "y_pad = (height - new_height) div 2"
    "x_pad n = (width - int n * new_width) div 2"
    "y_pad = 26" "height - (y_pad + new_height) = 26"
    "x_pad 1 = 26" "width - (x_pad 1 + new_width) = 26"
    by (simp_all add: y_pad_def x_pad_def height_def width_def new_height_def new_width_def)
  show ?thesis
    unfolding compose_ok[OF assms(1,2)] n_def[symmetric]
    using px written_rows cols pads by blast
qed

theorem glyph_placement_witness:
  "length [glyph 5] \<le> max_digits \<and> list_all (scales_to_glyph nearest_resize) [glyph 5]
   \<and> (0::nat) < length [glyph 5] \<and> (0::nat) < nat new_height \<and> (0::nat) < nat new_width
   \<and> (\<exists>canvas label. compose nearest_resize [glyph 5] [5] = Inr (canvas, label)
         \<and> canvas ! 26 ! 26 = 5)"
proof -
  have h: "length [glyph 5] \<le> max_digits" "list_all (scales_to_glyph nearest_resize) [glyph 5]"
    "(0::nat) < length [glyph 5]" "(0::nat) < nat new_height" "(0::nat) < nat new_width"
    by (simp_all add: max_digits_def scales_to_glyph_nearest new_height_def new_width_def)
  have g: "nearest_resize (glyph 5) ! 0 ! 0 = 5"
    by (simp add: nearest_resize_def glyph_def shape_replicate)
  from glyph_placement[OF h, of "[5]"] obtain canvas label where
    "compose nearest_resize [glyph 5] [5] = Inr (canvas, label)"
    "canvas ! (nat y_pad + 0) ! (nat (x_pad (length [glyph 5])) + 0 * nat new_width + 0)
       = nearest_resize ([glyph 5] ! 0) ! 0 ! 0"
    by blast
  then have "compose nearest_resize [glyph 5] [5] = Inr (canvas, label) \<and> canvas ! 26 ! 26 = 5"
    using g by (simp add: y_pad_eq x_pad_eq)
  then show ?thesis using h by blast
qed

text \<open>
  Claim C8. For \<open>num\<close> at most \<open>width div new_width\<close>, the columns written for two distinct
  glyph positions have no column in common.
\<close>

theorem glyph_columns_disjoint:
  assumes "num \<le> nat (width div new_width)" and "i < num" and "j < num" and "i \<noteq> j"
  shows "set (written_columns num i) \<inter> set (written_columns num j) = {}"
proof -
  have n: "num \<le> 5" using assms(1) by (simp add: width_def new_width_def)
  from x_pad_nat[OF n] obtain a where a: "x_pad num = int a" "a + 12 * num \<le> 62" by metis
  have "i < j \<or> j < i" using assms(4) by auto
  then show ?thesis
    unfolding written_columns_nat[OF a assms(2)] written_columns_nat[OF a assms(3)]
    by auto
qed

theorem glyph_columns_disjoint_witness:
  "(5::nat) \<le> nat (width div new_width) \<and> (0::nat) < 5 \<and> (1::nat) < 5 \<and> (0::nat) \<noteq> 1
   \<and> set (written_columns 5 0) \<inter> set (written_columns 5 1) = {}"
proof -
  have h: "(5::nat) \<le> nat (width div new_width)" "(0::nat) < 5" "(1::nat) < 5" "(0::nat) \<noteq> 1"
    by (simp_all add: width_def new_width_def)
  show ?thesis using h glyph_columns_disjoint[OF h] by simp
qed

text \<open>
  Claim C10. For at most \<open>max_digits\<close> images, every pixel of the returned canvas that lies
  outside the rectangle of rows \<open>[y_pad, y_pad + new_height)\<close> and columns
  \<open>[x_pad, x_pad + num * new_width)\<close> is the background value 0.
\<close>

theorem background_outside_glyphs:
  assumes "length images \<le> max_digits" and "list_all (scales_to_glyph imresize) images"
    and "r < nat height" and "c < nat width"
    and "\<not> (y_pad \<le> int r \<and> int r < y_pad + new_height
            \<and> x_pad (length images) \<le> int c
            \<and> int c < x_pad (length images) + int (length images) * new_width)"
  shows "\<exists>canvas label. compose imresize images labels = Inr (canvas, label) \<and> canvas ! r ! c = 0"
proof -
  define n where "n = length images"
  have n: "n \<le> 5" using assms(1) by (simp add: max_digits_def n_def)
  from x_pad_nat[OF n] obtain a where a: "x_pad n = int a" "a + 12 * n \<le> 62" by metis
  have rc: "r < 64" "c < 64" using assms(3,4) by (simp_all add: height_def width_def)
  have out: "\<not> (26 \<le> r \<and> r < 38 \<and> a \<le> c \<and> c < a + 12 * n)"
    using assms(5) by (simp add: y_pad_eq new_height_def new_width_def n_def[symmetric] a(1)) linarith
  have "canvas_after imresize images n ! r ! c = 0"
    using canvas_after_nth[OF rc, of imresize images n] out
    by (simp add: n_def[symmetric] a(1))
  then show ?thesis
    by (simp add: compose_ok[OF assms(1,2)] n_def[symmetric])
qed

theorem background_outside_glyphs_witness:
  "length [glyph 5] \<le> max_digits \<and> list_all (scales_to_glyph nearest_resize) [glyph 5]
   \<and> (0::nat) < nat height \<and> (63::nat) < nat width
   \<and> \<not> (y_pad \<le> int 0 \<and> int 0 < y_pad + new_height
          \<and> x_pad (length [glyph 5]) \<le> int 63
          \<and> int 63 < x_pad (length [glyph 5]) + int (length [glyph 5]) * new_width)
   \<and> (\<exists>canvas label. compose nearest_resize [glyph 5] [5] = Inr (canvas, label)
         \<and> canvas ! 0 ! 63 = 0)"
proof -
  have h: "length [glyph 5] \<le> max_digits" "list_all (scales_to_glyph nearest_resize) [glyph 5]"
    "(0::nat) < nat height" "(63::nat) < nat width"
    "\<not> (y_pad \<le> int 0 \<and> int 0 < y_pad + new_height
          \<and> x_pad (length [glyph 5]) \<le> int 63
          \<and> int 63 < x_pad (length [glyph 5]) + int (length [glyph 5]) * new_width)"
    by (simp_all add: max_digits_def scales_to_glyph_nearest height_def width_def y_pad_eq)
  show ?thesis using h background_outside_glyphs[OF h, of "[5]"] by blast
qed

text \<open>
  Claim C4 says that the compositor fails on an empty sequence and on a number of labels other
  than the number of images. The code has neither check: with no image it returns the blank
  canvas and a label vector, also when a label is given.
\<close>

theorem compose_no_length_checks:
  "compose nearest_resize [] [] = Inr (zeros height width, [10, 10, 10, 10, 10])
   \<and> compose nearest_resize [] [3] = Inr (zeros height width, [3, 10, 10, 10, 10])"
  by (simp add: compose_def concat_images_def concat_labels_eq upt_conv_Cons)

text \<open>
  Claim C4, amended. With glyphs that scale to 12 x 12, the compositor returns normally for every
  number of images from 0 to \<open>max_digits\<close> and every number of labels, the label vector being the
  labels cut to five slots and padded with 10; with more than \<open>max_digits\<close> images it fails with
  the broadcast error of the slice assignment.
\<close>

theorem compose_failure_policy:
  assumes "list_all (scales_to_glyph imresize) images"
  shows "(length images \<le> max_digits \<longrightarrow>
            (\<exists>canvas. compose imresize images labels
                = Inr (canvas, map (\<lambda>i. if i < length labels then labels ! i else 10) [0..<5])))
         \<and> (max_digits < length images \<longrightarrow> compose imresize images labels = Inl BroadcastError)"
proof (intro conjI impI)
  assume "length images \<le> max_digits"
  then show "\<exists>canvas. compose imresize images labels
                = Inr (canvas, map (\<lambda>i. if i < length labels then labels ! i else 10) [0..<5])"
    using compose_ok[OF _ assms] by simp
next
  assume "max_digits < length images"
  then have "concat_images imresize images = Inl BroadcastError"
    using concat_images_too_many[OF _ assms] by (simp add: max_digits_def)
  then show "compose imresize images labels = Inl BroadcastError"
    by (simp add: compose_def)
qed

theorem compose_failure_policy_witness:
  "list_all (scales_to_glyph nearest_resize) [glyph 1] \<and> length [glyph 1] \<le> max_digits
   \<and> (\<exists>canvas. compose nearest_resize [glyph 1] [4, 2] = Inr (canvas, [4, 2, 10, 10, 10]))
   \<and> list_all (scales_to_glyph nearest_resize) (replicate 6 (glyph 1))
   \<and> max_digits < length (replicate 6 (glyph 1))
   \<and> compose nearest_resize (replicate 6 (glyph 1)) [] = Inl BroadcastError"
proof -
  have h1: "list_all (scales_to_glyph nearest_resize) [glyph 1]"
    and l1: "length [glyph 1] \<le> max_digits"
    and h6: "list_all (scales_to_glyph nearest_resize) (replicate 6 (glyph 1))"
    and l6: "max_digits < length (replicate 6 (glyph 1))"
    by (simp_all add: scales_to_glyph_nearest max_digits_def list_all_iff)
  have m: "map (\<lambda>i. if i < length [4, 2 :: int] then [4, 2] ! i else 10) [0..<5] = [4, 2, 10, 10, 10]"
    by (simp add: upt_conv_Cons)
  from compose_failure_policy[OF h1, of "[4, 2]"] l1
  have a: "\<exists>canvas. compose nearest_resize [glyph 1] [4, 2] = Inr (canvas, [4, 2, 10, 10, 10])"
    unfolding m by blast
  from compose_failure_policy[OF h6, of "[]"] l6
  have b: "compose nearest_resize (replicate 6 (glyph 1)) [] = Inl BroadcastError" by blast
  show ?thesis using h1 l1 h6 l6 a b by blast
qed

subsection \<open>The loops of the sampler\<close>

lemma to_int32_small: "- 2147483648 \<le> v \<Longrightarrow> v < 2147483648 \<Longrightarrow> to_int32 v = v"
  by (simp add: to_int32_def sint_sbintrunc' signed_take_bit_int_eq_self)

lemma group_of_row:
  assumes "(i - 1) * ns \<le> k" "k < i * ns" "1 \<le> i"
  shows "k div ns + 1 = (i::nat)"
proof -
  have "k div ns = i - 1"
  proof (rule div_nat_eqI)
    show "ns * (i - 1) \<le> k" using assms(1) by (simp add: mult.commute)
    show "k < ns * Suc (i - 1)" using assms(2,3) by (simp add: mult.commute)
  qed
  then show ?thesis using assms(3) by simp
qed

lemma corpus_select:
  assumes "list_all (scales_to_glyph imresize) data" "list_all (\<lambda>x. x < length data) sel"
  shows "list_all (scales_to_glyph imresize) (map (\<lambda>x. data ! x) sel)"
  using assms by (auto simp: list_all_iff)

lemma valid_corpus_scales:
  "valid_corpus imresize data labels \<Longrightarrow> list_all (scales_to_glyph imresize) data"
  by (auto simp: valid_corpus_def scales_to_glyph_def list_all_iff)

lemma sample_body_step:
  assumes ll: "length data = length labels" and sc: "list_all (scales_to_glyph imresize) data"
    and ok: "sample_ok sample"
    and i: "1 \<le> i" "i \<le> max_digits" and il: "i \<le> length data"
    and k: "(i - 1) * ns \<le> k" "k < i * ns" "k < N"
    and inv: "filled imresize data labels N ns k s"
  shows "\<exists>s'. sample_body sample imresize data labels i k s = Inr s'
           \<and> filled imresize data labels N ns (Suc k) s'"
proof -
  define sel where "sel = fst (sample (rng s) (length data) i)"
  define g' where "g' = snd (sample (rng s) (length data) i)"
  have sel: "distinct sel" "length sel = i" "list_all (\<lambda>x. x < length data) sel"
    using ok il by (simp_all add: sample_ok_def sel_def)
  have rs: "random_sample sample (rng s) (length data) i = Inr (sel, g')"
    using il by (simp add: random_sample_def sel_def g'_def)
  have fd: "fancy_index data sel = Inr (map (\<lambda>x. data ! x) sel)"
    using sel(3) by (simp add: fancy_index_def)
  have fl: "fancy_index labels sel = Inr (map (\<lambda>x. labels ! x) sel)"
    using sel(3) ll by (simp add: fancy_index_def)
  define c where "c = canvas_after imresize (map (\<lambda>x. data ! x) sel) i"
  have ci: "concat_images imresize (map (\<lambda>x. data ! x) sel) = Inr c"
    using concat_images_eq[of "map (\<lambda>x. data ! x) sel" imresize]
      corpus_select[OF sc sel(3)] sel(2) i(2)
    by (simp add: c_def max_digits_def)
  define s' where "s' = s\<lparr>rng := g', X_arr := (X_arr s)[k := c],
      y_arr := (y_arr s)[k := map to_int32 (concat_labels (map (\<lambda>x. labels ! x) sel) 5)],
      drawn := drawn s @ [sel]\<rparr>"
  have lens: "length (X_arr s) = N" "length (y_arr s) = N" "length (drawn s) = k"
    using inv by (simp_all add: filled_def)
  have old: "distinct (drawn s ! j) \<and> length (drawn s ! j) = j div ns + 1
             \<and> list_all (\<lambda>x. x < length data) (drawn s ! j)
             \<and> concat_images imresize (map (\<lambda>x. data ! x) (drawn s ! j)) = Inr (X_arr s ! j)
             \<and> y_arr s ! j = map to_int32 (concat_labels (map (\<lambda>x. labels ! x) (drawn s ! j)) 5)"
    if "j < k" for j
    using inv that by (simp add: filled_def)
  have rest: "X_arr s ! j = zeros height width \<and> y_arr s ! j = replicate max_digits 0"
    if "k \<le> j" "j < N" for j
    using inv that by (simp add: filled_def)
  have body: "sample_body sample imresize data labels i k s = Inr s'"
    using k(3) by (simp add: sample_body_def rs fd fl ci lens s'_def)
  have grp: "k div ns + 1 = i" by (rule group_of_row[OF k(1,2) i(1)])
  have new: "distinct (drawn s' ! j) \<and> length (drawn s' ! j) = j div ns + 1
             \<and> list_all (\<lambda>x. x < length data) (drawn s' ! j)
             \<and> concat_images imresize (map (\<lambda>x. data ! x) (drawn s' ! j)) = Inr (X_arr s' ! j)
             \<and> y_arr s' ! j = map to_int32 (concat_labels (map (\<lambda>x. labels ! x) (drawn s' ! j)) 5)"
    if "j < Suc k" for j
  proof (cases "j = k")
    case True
    then show ?thesis
      using sel ci grp k(3) by (simp add: s'_def lens nth_append)
  next
    case False
    then have "j < k" using that by simp
    then show ?thesis using old[of j] by (simp add: s'_def lens nth_append)
  qed
  have rest': "X_arr s' ! j = zeros height width \<and> y_arr s' ! j = replicate max_digits 0"
    if "Suc k \<le> j" "j < N" for j
    using rest[of j] that by (simp add: s'_def)
  have "filled imresize data labels N ns (Suc k) s'"
    unfolding filled_def using new rest' by (simp add: s'_def lens)
  then show ?thesis using body by blast
qed

lemma inner_loop:
  assumes ll: "length data = length labels" and sc: "list_all (scales_to_glyph imresize) data"
    and ok: "sample_ok sample"
    and i: "1 \<le> i" "i \<le> max_digits" and il: "i \<le> length data"
    and N: "i * ns \<le> N"
    and inv: "filled imresize data labels N ns ((i - 1) * ns) (s :: 'g gen_state)"
  shows "\<exists>s'. for_each (sample_body sample imresize data labels i) [(i - 1) * ns..<i * ns] s = Inr s'
           \<and> filled imresize data labels N ns (i * ns) s'"
proof (rule for_each_upt[where Inv = "filled imresize data labels N ns"])
  show "filled imresize data labels N ns ((i - 1) * ns) s" by (rule inv)
next
  fix k and s :: "'g gen_state"
  assume k: "(i - 1) * ns \<le> k" "k < i * ns" and f: "filled imresize data labels N ns k s"
  have "k < N" using k(2) N by simp
  then show "\<exists>s'. sample_body sample imresize data labels i k s = Inr s'
               \<and> filled imresize data labels N ns (Suc k) s'"
    using sample_body_step[OF ll sc ok i il k] f by blast
next
  show "(i - 1) * ns \<le> i * ns" by (simp add: mult_le_mono1)
qed

lemma groups_loop:
  assumes ll: "length data = length labels" and sc: "list_all (scales_to_glyph imresize) data"
    and ok: "sample_ok sample"
    and m: "m \<le> max_digits" "m \<le> length data"
    and N: "m * ns \<le> N"
    and inv: "filled imresize data labels N ns 0 (s :: 'g gen_state)"
  shows "\<exists>s'. for_each (\<lambda>i. for_each (sample_body sample imresize data labels i)
                                [(i - 1) * ns..<i * ns]) [1..<m + 1] s = Inr s'
           \<and> filled imresize data labels N ns (m * ns) s'"
proof -
  have "\<exists>s'. for_each (\<lambda>i. for_each (sample_body sample imresize data labels i)
                                [(i - 1) * ns..<i * ns]) [1..<m + 1] s = Inr s'
           \<and> filled imresize data labels N ns ((m + 1 - 1) * ns) s'"
  proof (rule for_each_upt[where Inv = "\<lambda>i. filled imresize data labels N ns ((i - 1) * ns)"])
    show "filled imresize data labels N ns ((1 - 1) * ns) s" using inv by simp
  next
    fix i and s :: "'g gen_state"
    assume i: "1 \<le> i" "i < m + 1"
      and f: "filled imresize data labels N ns ((i - 1) * ns) s"
    have im: "i \<le> m" using i(2) by simp
    then have "i * ns \<le> m * ns" by (rule mult_le_mono1)
    from this N have iN: "i * ns \<le> N" by (rule le_trans)
    have "i \<le> max_digits" "i \<le> length data" using im m by simp_all
    then show "\<exists>s'. for_each (sample_body sample imresize data labels i) [(i - 1) * ns..<i * ns] s = Inr s'
                 \<and> filled imresize data labels N ns ((Suc i - 1) * ns) s'"
      using inner_loop[OF ll sc ok i(1) _ _ iN f] by simp
  qed simp
  then show ?thesis by simp
qed

lemma outer_loop:
  assumes vc: "valid_corpus imresize data labels" and ok: "sample_ok sample"
    and N: "max_digits * ns \<le> N"
    and inv: "filled imresize data labels N ns 0 (s :: 'g gen_state)"
  shows "\<exists>s'. for_each (\<lambda>i. for_each (sample_body sample imresize data labels i)
                                [(i - 1) * ns..<i * ns]) [1..<max_digits + 1] s = Inr s'
           \<and> filled imresize data labels N ns (max_digits * ns) s'"
proof (rule groups_loop[OF _ valid_corpus_scales[OF vc] ok _ _ N inv])
  show "length data = length labels" "max_digits \<le> length data"
    using vc by (simp_all add: valid_corpus_def)
qed simp

lemma filled_start:
  "filled imresize data labels N ns 0
     \<lparr>rng = g, X_arr = replicate N (zeros height width),
      y_arr = replicate N (replicate max_digits 0), drawn = []\<rparr>"
  by (simp add: filled_def)

lemma generate_state_filled:
  assumes vc: "valid_corpus imresize data labels" and ok: "sample_ok sample" and n: "0 \<le> n"
  shows "\<exists>s. generate_state sample imresize g data labels n = Inr s
           \<and> filled imresize data labels (nat n) (nat (n div int max_digits))
                (max_digits * nat (n div int max_digits)) s"
proof -
  have "int max_digits * (n div int max_digits) \<le> n"
    using n by (simp add: max_digits_def) 
  then have N: "max_digits * nat (n div int max_digits) \<le> nat n"
    using n by (simp add: max_digits_def nat_mult_distrib le_nat_iff)
  show ?thesis
    using outer_loop[OF vc ok N filled_start] n
    by (simp add: generate_state_def Let_def)
qed

subsection \<open>Counting the rows of each sequence length\<close>

lemma concat_labels_append:
  assumes "length ls \<le> n"
  shows "concat_labels ls n = ls @ replicate (n - length ls) 10"
proof -
  let ?v = "map (\<lambda>i. if i < length ls then ls ! i else (10::int)) [0..<n]"
  have "?v = take (length ls) ?v @ drop (length ls) ?v" by simp
  also have "\<dots> = ls @ replicate (n - length ls) 10"
    using labels_prefix[OF refl assms] labels_suffix[OF refl, of ls n] by simp
  finally show ?thesis by (simp add: concat_labels_eq)
qed

lemma real_digits_row:
  assumes "length sel \<le> 5" "list_all (\<lambda>x. x < length labels) sel"
    "list_all (\<lambda>l. 0 \<le> l \<and> l \<le> 9) labels"
  shows "real_digits (map to_int32 (concat_labels (map (\<lambda>x. labels ! x) sel) 5)) = length sel"
proof -
  have digit: "to_int32 (labels ! x) = labels ! x \<and> labels ! x \<noteq> 10" if "x \<in> set sel" for x
  proof -
    have "x < length labels" using assms(2) that by (simp add: list_all_iff)
    then have "0 \<le> labels ! x \<and> labels ! x \<le> 9" using assms(3) by (simp add: list_all_length)
    then show ?thesis using to_int32_small[of "labels ! x"] by simp
  qed
  have ten: "to_int32 10 = 10" by (rule to_int32_small) simp_all
  have "filter (\<lambda>v. v \<noteq> 10) (map to_int32 (map (\<lambda>x. labels ! x) sel)) = map (\<lambda>x. labels ! x) sel"
    using digit by (induction sel) auto
  then show ?thesis
    using assms(1) by (simp add: real_digits_def concat_labels_append ten)
qed

lemma real_digits_zero_row: "real_digits (replicate max_digits 0) = 5"
  by (simp add: real_digits_def max_digits_def)

lemma row_group:
  assumes "0 < ns" "1 \<le> len"
  shows "j div ns + 1 = len \<longleftrightarrow> (len - 1) * ns \<le> j \<and> j < len * (ns::nat)"
proof
  assume "j div ns + 1 = len"
  then have q: "j div ns = len - 1" "len = j div ns + 1" by simp_all
  have "j div ns * ns \<le> j" by simp
  moreover have "j < ns + j div ns * ns" using assms(1) by (rule dividend_less_div_times)
  ultimately show "(len - 1) * ns \<le> j \<and> j < len * ns"
    unfolding q(1)[symmetric] by (subst q(2)) simp
next
  assume "(len - 1) * ns \<le> j \<and> j < len * ns"
  then show "j div ns + 1 = len" using group_of_row[of len ns j] assms(2) by simp
qed

lemma count_rows:
  assumes len: "length y = N" and N: "5 * ns \<le> N"
    and rows: "\<And>j. j < N \<Longrightarrow> real_digits (y ! j) = (if j < 5 * ns then j div ns + 1 else 5)"
    and l: "1 \<le> len" "len \<le> 5"
  shows "length (filter (\<lambda>label. real_digits label = len) y)
         = ns + (if len = 5 then N - 5 * ns else 0)"
proof -
  have "{j. j < length y \<and> real_digits (y ! j) = len}
        = {(len - 1) * ns..<len * ns} \<union> (if len = 5 then {5 * ns..<N} else {})"
  proof (cases "ns = 0")
    case True
    then show ?thesis using rows l by (auto simp: len)
  next
    case False
    then have ns: "0 < ns" by simp
    have up: "len * ns \<le> 5 * ns" using l(2) by (rule mult_le_mono1)
    show ?thesis
    proof (intro set_eqI iffI)
      fix j assume "j \<in> {j. j < length y \<and> real_digits (y ! j) = len}"
      then have j: "j < N" "(if j < 5 * ns then j div ns + 1 else 5) = len"
        using rows[of j] by (simp_all add: len)
      show "j \<in> {(len - 1) * ns..<len * ns} \<union> (if len = 5 then {5 * ns..<N} else {})"
      proof (cases "j < 5 * ns")
        case True
        then have "j div ns + 1 = len" using j(2) by simp
        then show ?thesis using row_group[OF ns l(1), of j] by simp
      next
        case False
        then show ?thesis using j by simp
      qed
    next
      fix j assume a: "j \<in> {(len - 1) * ns..<len * ns} \<union> (if len = 5 then {5 * ns..<N} else {})"
      show "j \<in> {j. j < length y \<and> real_digits (y ! j) = len}"
      proof (cases "j < len * ns \<and> (len - 1) * ns \<le> j")
        case True
        then have "j < len * ns" by simp
        from this up have j5: "j < 5 * ns" by (rule less_le_trans)
        have "j div ns + 1 = len" using True row_group[OF ns l(1), of j] by simp
        then show ?thesis using rows[of j] N j5 by (simp add: len)
      next
        case False
        then have "len = 5" "5 * ns \<le> j" "j < N" using a by (auto split: if_splits)
        then show ?thesis using rows[of j] by (simp add: len)
      qed
    qed
  qed
  moreover have "card ({(len - 1) * ns..<len * ns} \<union> (if len = 5 then {5 * ns..<N} else {}))
        = ns + (if len = 5 then N - 5 * ns else 0)"
  proof -
    have "len * ns - (len - 1) * ns = ns" using l(1) by (simp add: diff_mult_distrib)
    moreover have "{(len - 1) * ns..<len * ns} \<inter> {5 * ns..<N} = {}" if "len = 5"
      using that by auto
    ultimately show ?thesis by (simp add: card_Un_disjoint)
  qed
  ultimately show ?thesis by (simp add: length_filter_conv_card)
qed

lemma rotating_sample_ok: "sample_ok rotating_sample"
  unfolding sample_ok_def rotating_sample_def
  by (auto simp: list_all_iff dest: in_set_takeD)

lemma valid_corpus_example: "valid_corpus nearest_resize (replicate 5 (glyph 1)) [0, 1, 2, 3, 4]"
  using scales_to_glyph_nearest[of 1]
  by (simp add: valid_corpus_def max_digits_def scales_to_glyph_def list_all_iff)

lemma generate_rows:
  assumes vc: "valid_corpus imresize data labels" and ok: "sample_ok sample" and n: "0 \<le> n"
  shows "\<exists>s. generate_state sample imresize g data labels n = Inr s
           \<and> filled imresize data labels (nat n) (nat (n div int max_digits))
                (max_digits * nat (n div int max_digits)) s
           \<and> length (y_arr s) = nat n \<and> length (X_arr s) = nat n
           \<and> 5 * nat (n div int max_digits) \<le> nat n
           \<and> (\<forall>j<nat n. real_digits (y_arr s ! j)
                 = (if j < 5 * nat (n div int max_digits)
                    then j div nat (n div int max_digits) + 1 else 5))"
proof -
  define ns where "ns = nat (n div int max_digits)"
  from generate_state_filled[OF vc ok n, of g] obtain s where
    s: "generate_state sample imresize g data labels n = Inr s"
    and f: "filled imresize data labels (nat n) ns (max_digits * ns) s"
    by (auto simp: ns_def)
  have "5 * (n div 5) \<le> n" "0 \<le> n div 5" using n by presburger+
  then have N: "5 * ns \<le> nat n"
    by (simp add: ns_def max_digits_def)
  have lens: "length (y_arr s) = nat n" "length (X_arr s) = nat n"
    using f by (simp_all add: filled_def)
  have labs: "length data = length labels" "list_all (\<lambda>l. 0 \<le> l \<and> l \<le> 9) labels"
    using vc by (simp_all add: valid_corpus_def)
  have row: "real_digits (y_arr s ! j) = (if j < 5 * ns then j div ns + 1 else 5)"
    if j: "j < nat n" for j
  proof (cases "j < 5 * ns")
    case True
    then have jk: "j < max_digits * ns" by (simp add: max_digits_def)
    have d: "length (drawn s ! j) = j div ns + 1"
      "list_all (\<lambda>x. x < length data) (drawn s ! j)"
      "y_arr s ! j = map to_int32 (concat_labels (map (\<lambda>x. labels ! x) (drawn s ! j)) 5)"
      using f jk by (simp_all add: filled_def)
    have "j div ns < 5" using True by (rule less_mult_imp_div_less)
    then have "length (drawn s ! j) \<le> 5" using d(1) by simp
    then show ?thesis
      using real_digits_row[of "drawn s ! j" labels] d labs True by simp
  next
    case False
    then have "y_arr s ! j = replicate max_digits 0"
      using f j by (simp add: filled_def max_digits_def)
    then show ?thesis using False by (simp add: real_digits_zero_row)
  qed
  show ?thesis using s f N lens row unfolding ns_def[symmetric] by blast
qed

subsection \<open>Claims about the sampler\<close>

text \<open>
  Claim C2. For a valid corpus, a sampler that keeps the contract of \<^verbatim>\<open>random.sample\<close>
  and a target size \<open>n\<close> divisible by \<open>max_digits\<close>, the generator returns two arrays of
  length \<open>n\<close>, made of \<open>max_digits\<close> contiguous groups of \<open>n div max_digits\<close> rows; every row
  of group \<open>i\<close>, at indices from \<open>(i - 1) * (n div max_digits)\<close> up to but excluding
  \<open>i * (n div max_digits)\<close>, has exactly \<open>i\<close> label slots other than 10. So each length from
  1 to 5 counts \<open>n div max_digits\<close> rows, which is 10000 for \<open>n = 50000\<close>.
\<close>

theorem generate_balanced_groups:
  assumes "valid_corpus imresize data labels" and "sample_ok sample"
    and "0 \<le> n" and "n mod int max_digits = 0"
  shows "\<exists>X y. generate_digit_sequences sample imresize g data labels n = Inr (X, y)
           \<and> length X = nat n \<and> length y = nat n
           \<and> nat n = max_digits * nat (n div int max_digits)
           \<and> (\<forall>i j. 1 \<le> i \<and> i \<le> max_digits
                  \<and> (i - 1) * nat (n div int max_digits) \<le> j
                  \<and> j < i * nat (n div int max_digits)
                \<longrightarrow> real_digits (y ! j) = i)
           \<and> (\<forall>len. 1 \<le> len \<and> len \<le> max_digits
                \<longrightarrow> length (filter (\<lambda>label. real_digits label = len) y)
                    = nat (n div int max_digits))
           \<and> (n = dataset_size
                \<longrightarrow> (\<forall>len. 1 \<le> len \<and> len \<le> max_digits
                      \<longrightarrow> length (filter (\<lambda>label. real_digits label = len) y) = 10000))"
proof -
  define ns where "ns = nat (n div int max_digits)"
  from generate_rows[OF assms(1,2,3), of g] obtain s where
    s: "generate_state sample imresize g data labels n = Inr s"
    and lens: "length (y_arr s) = nat n" "length (X_arr s) = nat n"
    and rows: "\<And>j. j < nat n \<Longrightarrow> real_digits (y_arr s ! j) = (if j < 5 * ns then j div ns + 1 else 5)"
    unfolding ns_def by blast
  have "n mod 5 = 0" using assms(4) by (simp add: max_digits_def)
  then have "n = 5 * (n div 5)" "0 \<le> n div 5" using assms(3) by presburger+
  then have N: "nat n = 5 * ns"
    by (simp add: ns_def max_digits_def)
  have grp: "real_digits (y_arr s ! j) = i"
    if "1 \<le> i" "i \<le> max_digits" "(i - 1) * ns \<le> j" "j < i * ns" for i j
  proof -
    have "i \<le> 5" using that(2) by (simp add: max_digits_def)
    then have "i * ns \<le> 5 * ns" by (rule mult_le_mono1)
    with that(4) have "j < 5 * ns" by (rule less_le_trans)
    then show ?thesis using rows[of j] N group_of_row[OF that(3,4,1)] by simp
  qed
  have cnt: "length (filter (\<lambda>label. real_digits label = len) (y_arr s)) = ns"
    if "1 \<le> len" "len \<le> max_digits" for len
    using count_rows[of "y_arr s" "nat n" ns len] lens(1) rows that N
    by (simp add: max_digits_def)
  have big: "ns = 10000" if "n = dataset_size"
    using that by (simp add: ns_def dataset_size_def max_digits_def)
  have "generate_digit_sequences sample imresize g data labels n = Inr (expand_dims (X_arr s), y_arr s)"
    by (simp add: generate_digit_sequences_def s)
  moreover have "length (expand_dims (X_arr s)) = nat n" by (simp add: expand_dims_def lens)
  moreover have "nat n = max_digits * ns" using N by (simp add: max_digits_def)
  ultimately show ?thesis
    unfolding ns_def[symmetric] using lens(1) grp cnt big by (intro exI conjI) auto
qed

theorem generate_balanced_groups_witness:
  "valid_corpus nearest_resize (replicate 5 (glyph 1)) [0, 1, 2, 3, 4]
   \<and> sample_ok rotating_sample \<and> 0 \<le> dataset_size \<and> dataset_size mod int max_digits = 0
   \<and> (\<exists>X y. generate_digit_sequences rotating_sample nearest_resize 0
                (replicate 5 (glyph 1)) [0, 1, 2, 3, 4] dataset_size = Inr (X, y)
          \<and> length X = 50000 \<and> length y = 50000
          \<and> real_digits (y ! 25000) = 3
          \<and> length (filter (\<lambda>label. real_digits label = 3) y) = 10000)"
proof -
  have h: "0 \<le> dataset_size" "dataset_size mod int max_digits = 0"
    by (simp_all add: dataset_size_def max_digits_def)
  have ns: "nat (dataset_size div int max_digits) = 10000" "nat dataset_size = 50000"
    by (simp_all add: dataset_size_def max_digits_def)
  from generate_balanced_groups[OF valid_corpus_example rotating_sample_ok h, of 0]
  obtain X y where r:
    "generate_digit_sequences rotating_sample nearest_resize 0
       (replicate 5 (glyph 1)) [0, 1, 2, 3, 4] dataset_size = Inr (X, y)"
    "length X = nat dataset_size" "length y = nat dataset_size"
    "\<forall>i j. 1 \<le> i \<and> i \<le> max_digits
         \<and> (i - 1) * nat (dataset_size div int max_digits) \<le> j
         \<and> j < i * nat (dataset_size div int max_digits)
       \<longrightarrow> real_digits (y ! j) = i"
    "\<forall>len. 1 \<le> len \<and> len \<le> max_digits
       \<longrightarrow> length (filter (\<lambda>label. real_digits label = len) y) = 10000"
    by blast
  have "real_digits (y ! 25000) = 3"
    using r(4)[unfolded ns, rule_format, of 3 25000] by (simp add: max_digits_def)
  moreover have "length (filter (\<lambda>label. real_digits label = 3) y) = 10000"
    using r(5)[rule_format, of 3] by (simp add: max_digits_def)
  ultimately show ?thesis
    using valid_corpus_example rotating_sample_ok h r(1,2,3) unfolding ns by blast
qed

text \<open>
  Claim C6. In every row the generator writes, the corpus indices drawn for it are pairwise
  distinct, as many as the group's sequence length, and they are the indices whose glyphs and
  labels the row holds. Every draw is made from the whole corpus, so an index can come back
  in another row: with a corpus of exactly \<open>max_digits\<close> glyphs the index of the first row
  is among those of every row of the last group.
\<close>

theorem draws_distinct_within_sample:
  assumes "valid_corpus imresize data labels" and "sample_ok sample" and "0 \<le> n"
  shows "\<exists>s. generate_state sample imresize g data labels n = Inr s
           \<and> generate_digit_sequences sample imresize g data labels n
               = Inr (expand_dims (X_arr s), y_arr s)
           \<and> length (drawn s) = max_digits * nat (n div int max_digits)
           \<and> (\<forall>j<length (drawn s).
                 distinct (drawn s ! j)
                 \<and> length (drawn s ! j) = j div nat (n div int max_digits) + 1
                 \<and> list_all (\<lambda>x. x < length data) (drawn s ! j)
                 \<and> concat_images imresize (map (\<lambda>x. data ! x) (drawn s ! j)) = Inr (X_arr s ! j)
                 \<and> y_arr s ! j = map to_int32 (concat_labels (map (\<lambda>x. labels ! x) (drawn s ! j)) 5))
           \<and> (length data = max_digits \<and> 0 < n div int max_digits
                \<longrightarrow> drawn s ! 0 \<noteq> []
                    \<and> set (drawn s ! 0)
                        \<subseteq> set (drawn s ! ((max_digits - 1) * nat (n div int max_digits))))"
proof -
  define ns where "ns = nat (n div int max_digits)"
  from generate_rows[OF assms, of g] obtain s where
    s: "generate_state sample imresize g data labels n = Inr s"
    and f: "filled imresize data labels (nat n) ns (max_digits * ns) s"
    unfolding ns_def by blast
  have len: "length (drawn s) = max_digits * ns" using f by (simp add: filled_def)
  have each: "distinct (drawn s ! j) \<and> length (drawn s ! j) = j div ns + 1
      \<and> list_all (\<lambda>x. x < length data) (drawn s ! j)
      \<and> concat_images imresize (map (\<lambda>x. data ! x) (drawn s ! j)) = Inr (X_arr s ! j)
      \<and> y_arr s ! j = map to_int32 (concat_labels (map (\<lambda>x. labels ! x) (drawn s ! j)) 5)"
    if "j < max_digits * ns" for j
    using f that by (simp add: filled_def)
  have reuse: "drawn s ! 0 \<noteq> [] \<and> set (drawn s ! 0) \<subseteq> set (drawn s ! ((max_digits - 1) * ns))"
    if d: "length data = max_digits" and pos: "0 < n div int max_digits"
  proof -
    have ns: "0 < ns" using pos by (simp add: ns_def)
    let ?last = "drawn s ! (4 * ns)"
    have l: "4 * ns < max_digits * ns" using ns by (simp add: max_digits_def)
    have "(4 * ns) div ns = 4" using ns by simp
    then have last: "distinct ?last" "length ?last = 5" "set ?last \<subseteq> {..<5}"
      using each[OF l] d by (auto simp: list_all_iff max_digits_def)
    have "card (set ?last) = 5" using last(1,2) by (simp add: distinct_card)
    then have all: "set ?last = {..<5}"
      using last(3) by (intro card_subset_eq) simp_all
    have z: "0 < max_digits * ns" using ns by (simp add: max_digits_def)
    have first: "length (drawn s ! 0) = 1" "set (drawn s ! 0) \<subseteq> {..<5}"
      using each[OF z] d by (auto simp: list_all_iff max_digits_def)
    have "drawn s ! 0 \<noteq> []" using first(1) by auto
    then show ?thesis using first(2) all by (simp add: max_digits_def)
  qed
  have "generate_digit_sequences sample imresize g data labels n = Inr (expand_dims (X_arr s), y_arr s)"
    by (simp add: generate_digit_sequences_def s)
  then show ?thesis
    unfolding ns_def[symmetric] using s len each reuse by (intro exI[of _ s] conjI) auto
qed

theorem draws_distinct_within_sample_witness:
  "valid_corpus nearest_resize (replicate 5 (glyph 1)) [0, 1, 2, 3, 4]
   \<and> sample_ok rotating_sample \<and> (0::int) \<le> 5
   \<and> (\<exists>s. generate_state rotating_sample nearest_resize 0
              (replicate 5 (glyph 1)) [0, 1, 2, 3, 4] 5 = Inr s
          \<and> length (drawn s) = 5 \<and> distinct (drawn s ! 4) \<and> length (drawn s ! 4) = 5
          \<and> drawn s ! 0 \<noteq> [] \<and> set (drawn s ! 0) \<subseteq> set (drawn s ! 4))"
proof -
  have h: "(0::int) \<le> 5" by simp
  have ns: "nat (5 div int max_digits) = 1" "max_digits * 1 = 5" "(max_digits - 1) * 1 = 4"
    "length (replicate 5 (glyph 1)) = max_digits \<and> 0 < 5 div int max_digits"
    by (simp_all add: max_digits_def)
  from draws_distinct_within_sample[OF valid_corpus_example rotating_sample_ok h, of 0,
      unfolded ns]
  obtain s where s:
    "generate_state rotating_sample nearest_resize 0 (replicate 5 (glyph 1)) [0, 1, 2, 3, 4] 5 = Inr s"
    "length (drawn s) = 5"
    "\<forall>j<length (drawn s). distinct (drawn s ! j) \<and> length (drawn s ! j) = j div 1 + 1
        \<and> list_all (\<lambda>x. x < length (replicate 5 (glyph 1))) (drawn s ! j)
        \<and> concat_images nearest_resize (map (\<lambda>x. replicate 5 (glyph 1) ! x) (drawn s ! j))
            = Inr (X_arr s ! j)
        \<and> y_arr s ! j = map to_int32 (concat_labels (map (\<lambda>x. [0, 1, 2, 3, 4] ! x) (drawn s ! j)) 5)"
    "drawn s ! 0 \<noteq> [] \<and> set (drawn s ! 0) \<subseteq> set (drawn s ! 4)"
    using ns(4) by blast
  have "distinct (drawn s ! 4) \<and> length (drawn s ! 4) = 5"
    using s(3)[rule_format, of 4] s(2) by simp
  then show ?thesis
    using valid_corpus_example rotating_sample_ok s(1,2,4) by auto
qed

text \<open>
  Claim C7 asks that a target size not divisible by \<open>max_digits\<close> is rejected or handled by a
  remainder policy. The generator allocates \<open>n\<close> rows and writes \<open>max_digits * (n div max_digits)\<close>
  of them: for \<open>n = 7\<close> it returns seven rows without an error, the last two being the blank
  canvas with the label vector of five zeros, so that three rows count five real digits and
  one row counts one.
\<close>

theorem generate_leaves_rows_unwritten:
  "\<exists>X y. generate_digit_sequences rotating_sample nearest_resize 0
            (replicate 5 (glyph 1)) [0, 1, 2, 3, 4] 7 = Inr (X, y)
      \<and> length X = 7 \<and> length y = 7
      \<and> y ! 5 = [0, 0, 0, 0, 0] \<and> y ! 6 = [0, 0, 0, 0, 0]
      \<and> X ! 5 = map (map (\<lambda>p. [p])) (zeros height width)
      \<and> X ! 6 = map (map (\<lambda>p. [p])) (zeros height width)
      \<and> length (filter (\<lambda>label. real_digits label = 1) y) = 1
      \<and> length (filter (\<lambda>label. real_digits label = 5) y) = 3"
proof -
  have ns: "nat (7 div int max_digits) = 1" "nat 7 = 7"
    by (simp_all add: max_digits_def)
  from generate_rows[OF valid_corpus_example rotating_sample_ok, of 7 0, unfolded ns]
  obtain s where s:
    "generate_state rotating_sample nearest_resize 0 (replicate 5 (glyph 1)) [0, 1, 2, 3, 4] 7 = Inr s"
    and f: "filled nearest_resize (replicate 5 (glyph 1)) [0, 1, 2, 3, 4] 7 1 (max_digits * 1) s"
    and lens: "length (y_arr s) = 7" "length (X_arr s) = 7"
    and rows: "\<forall>j<7. real_digits (y_arr s ! j) = (if j < 5 * 1 then j div 1 + 1 else 5)"
    by auto
  have rest: "X_arr s ! j = zeros height width \<and> y_arr s ! j = replicate max_digits 0"
    if "5 \<le> j" "j < 7" for j
    using f that by (simp add: filled_def max_digits_def)
  have zero: "replicate max_digits (0::int) = [0, 0, 0, 0, 0]"
    by (simp add: max_digits_def numeral_eq_Suc)
  have c1: "length (filter (\<lambda>label. real_digits label = 1) (y_arr s)) = 1"
    using count_rows[of "y_arr s" 7 1 1] lens(1) rows by simp
  have c5: "length (filter (\<lambda>label. real_digits label = 5) (y_arr s)) = 3"
    using count_rows[of "y_arr s" 7 1 5] lens(1) rows by simp
  have "generate_digit_sequences rotating_sample nearest_resize 0
            (replicate 5 (glyph 1)) [0, 1, 2, 3, 4] 7 = Inr (expand_dims (X_arr s), y_arr s)"
    by (simp add: generate_digit_sequences_def s)
  moreover have "expand_dims (X_arr s) ! 5 = map (map (\<lambda>p. [p])) (zeros height width)"
    "expand_dims (X_arr s) ! 6 = map (map (\<lambda>p. [p])) (zeros height width)"
    using rest[of 5] rest[of 6] lens(2) by (simp_all add: expand_dims_def)
  moreover have "y_arr s ! 5 = [0, 0, 0, 0, 0]" "y_arr s ! 6 = [0, 0, 0, 0, 0]"
    using rest[of 5] rest[of 6] zero by simp_all
  moreover have "length (expand_dims (X_arr s)) = 7" by (simp add: expand_dims_def lens)
  ultimately show ?thesis using lens(1) c1 c5 by blast
qed

lemma for_each_some_fails:
  assumes "i \<in> set todo" and "\<And>s. \<exists>e. body i s = Inl e"
  shows "\<exists>e. for_each body todo s = Inl e"
  using assms(1)
proof (induction todo arbitrary: s)
  case Nil
  then show ?case by simp
next
  case (Cons j todo)
  show ?case
  proof (cases "body j s")
    case (Inl e)
    then show ?thesis by simp
  next
    case (Inr s')
    then have "i \<noteq> j" using assms(2)[of s] by auto
    then show ?thesis using Cons.IH[of s'] Cons.prems Inr by simp
  qed
qed

lemma group_too_long_fails:
  assumes "length data < i" "0 < ns"
  shows "for_each (sample_body sample imresize data labels i) [(i - 1) * ns..<i * ns] s
         = Inl SampleError"
proof -
  have "(i - 1) * ns < i * ns" using assms by simp
  then have "[(i - 1) * ns..<i * ns] = (i - 1) * ns # [Suc ((i - 1) * ns)..<i * ns]"
    by (rule upt_conv_Cons)
  moreover have "sample_body sample imresize data labels i ((i - 1) * ns) s = Inl SampleError"
    using assms(1) by (simp add: sample_body_def random_sample_def)
  ultimately show ?thesis by simp
qed

lemma for_each_append:
  "for_each body (xs @ ys) s
   = (case for_each body xs s of Inl e \<Rightarrow> Inl e | Inr s' \<Rightarrow> for_each body ys s')"
  by (induction xs arbitrary: s) (simp_all split: sum.splits)

lemma for_each_skip:
  assumes "\<And>i s. i \<in> set todo \<Longrightarrow> body i s = Inr s"
  shows "for_each body todo s = Inr s"
  using assms by (induction todo arbitrary: s) simp_all

lemma generate_state_run_groups:
  "0 \<le> n \<Longrightarrow> generate_state sample imresize g data labels n
     = run_groups sample imresize data labels n [1..<max_digits + 1] (initial_state g n)"
  by (simp add: generate_state_def run_groups_def initial_state_def Let_def)

lemma run_groups_split:
  assumes "k < max_digits"
  shows "run_groups sample imresize data labels n [1..<max_digits + 1] s
         = (case run_groups sample imresize data labels n [1..<k + 1] s of
              Inl e \<Rightarrow> Inl e
            | Inr s' \<Rightarrow> run_groups sample imresize data labels n [k + 1..<max_digits + 1] s')"
proof -
  have eq: "k + 1 + (max_digits - k) = max_digits + 1" using assms by simp
  have "(1::nat) \<le> k + 1" by simp
  then have "[1..<k + 1 + (max_digits - k)] = [1..<k + 1] @ [k + 1..<k + 1 + (max_digits - k)]"
    by (rule upt_add_eq_append)
  then have "[1..<max_digits + 1] = [1..<k + 1] @ [k + 1..<max_digits + 1]"
    unfolding eq .
  then show ?thesis
    unfolding run_groups_def by (simp only: for_each_append)
qed

lemma run_groups_too_long:
  assumes "length data \<le> k" "k < max_digits" "0 < n div int max_digits"
  shows "run_groups sample imresize data labels n [k + 1..<max_digits + 1] s = Inl SampleError"
proof -
  have "[k + 1..<max_digits + 1] = (k + 1) # [Suc (k + 1)..<max_digits + 1]"
    using assms(2) by (intro upt_conv_Cons) simp
  moreover have "for_each (sample_body sample imresize data labels (k + 1))
      [(k + 1 - 1) * nat (n div int max_digits)..<(k + 1) * nat (n div int max_digits)] s
      = Inl SampleError"
    using assms(1,3) by (intro group_too_long_fails) simp_all
  ultimately show ?thesis unfolding run_groups_def by simp
qed

text \<open>
  Claim C5 says that the generator fails whenever the corpus is empty. The code never looks
  at the corpus before it draws: for a target size of 0, which \<open>max_digits\<close> divides, no draw
  is made and the empty corpus gives two empty arrays.
\<close>

theorem generate_empty_corpus_returns:
  "generate_digit_sequences rotating_sample nearest_resize 0 [] [] 0 = Inr ([], [])"
proof -
  have "run_groups rotating_sample nearest_resize [] [] 0 [1..<max_digits + 1] (initial_state 0 0)
        = Inr (initial_state 0 0)"
    unfolding run_groups_def by (rule for_each_skip) simp
  then show ?thesis
    by (simp add: generate_digit_sequences_def generate_state_run_groups initial_state_def
        expand_dims_def)
qed

text \<open>
  Claim C5, amended. Let the corpus have fewer than \<open>max_digits\<close> glyphs and the target size be
  at least \<open>max_digits\<close>. Then the generator fails and returns no arrays, whatever the sampler
  and the resizing do; with an empty corpus the failure is the sampler's error. With a
  sampler that keeps its contract, as many labels as glyphs and glyphs that scale to 12 x 12,
  the groups of the lengths up to the corpus size are generated first, one draw for each of
  their rows, and the error is the sampler's at the first draw of the next group, which is
  the error of the whole call. Nothing checks the corpus beforehand: for the target size 0
  the same corpus gives two empty arrays.
\<close>

theorem generate_small_corpus_fails:
  assumes "int max_digits \<le> n" and "length data < max_digits"
  shows "(\<exists>e. generate_digit_sequences sample imresize g data labels n = Inl e)
         \<and> (data = [] \<longrightarrow> generate_digit_sequences sample imresize g data labels n = Inl SampleError)
         \<and> (sample_ok sample \<and> length data = length labels
              \<and> list_all (scales_to_glyph imresize) data
            \<longrightarrow> (\<exists>s. run_groups sample imresize data labels n [1..<length data + 1]
                        (initial_state g n) = Inr s
                    \<and> length (drawn s) = length data * nat (n div int max_digits)
                    \<and> sample_body sample imresize data labels (length data + 1)
                        (length data * nat (n div int max_digits)) s = Inl SampleError
                    \<and> generate_state sample imresize g data labels n
                        = run_groups sample imresize data labels n
                            [length data + 1..<max_digits + 1] s)
                \<and> generate_state sample imresize g data labels n = Inl SampleError
                \<and> generate_digit_sequences sample imresize g data labels n = Inl SampleError)
         \<and> generate_digit_sequences sample imresize g data labels 0 = Inr ([], [])"
proof -
  define ns where "ns = nat (n div int max_digits)"
  have "1 \<le> n div 5" using assms(1) by (simp add: max_digits_def)
  then have pos: "0 < n div int max_digits" and ns: "0 < ns"
    by (simp_all add: ns_def max_digits_def)
  have n0: "0 \<le> n" using assms(1) by simp
  define pre where "pre = [1..<length data + 1]"
  define post where "post = [length data + 1..<max_digits + 1]"
  define todo where "todo = [1..<max_digits + 1]"
  have gs: "generate_state sample imresize g data labels n
            = run_groups sample imresize data labels n todo (initial_state g n)"
    unfolding todo_def by (rule generate_state_run_groups[OF n0])
  have split: "run_groups sample imresize data labels n todo s
               = (case run_groups sample imresize data labels n pre s of
                    Inl e \<Rightarrow> Inl e
                  | Inr s' \<Rightarrow> run_groups sample imresize data labels n post s')" for s
    unfolding todo_def pre_def post_def by (rule run_groups_split[OF assms(2)])
  have rest: "run_groups sample imresize data labels n post s = Inl SampleError" for s
    unfolding post_def by (rule run_groups_too_long[OF le_refl assms(2) pos])
  have a: "\<exists>e. generate_digit_sequences sample imresize g data labels n = Inl e"
    unfolding generate_digit_sequences_def gs split
    by (cases "run_groups sample imresize data labels n pre (initial_state g n)")
      (simp_all add: rest)
  have b: "generate_digit_sequences sample imresize g data labels n = Inl SampleError"
    if "data = []"
  proof -
    have "pre = []" using that by (simp add: pre_def)
    then have "run_groups sample imresize data labels n pre (initial_state g n)
          = Inr (initial_state g n)"
      by (simp add: run_groups_def)
    then show ?thesis
      unfolding generate_digit_sequences_def gs split by (simp add: rest)
  qed
  have c: "(\<exists>s. run_groups sample imresize data labels n [1..<length data + 1]
                        (initial_state g n) = Inr s
              \<and> length (drawn s) = length data * nat (n div int max_digits)
              \<and> sample_body sample imresize data labels (length data + 1)
                  (length data * nat (n div int max_digits)) s = Inl SampleError
              \<and> generate_state sample imresize g data labels n
                  = run_groups sample imresize data labels n
                      [length data + 1..<max_digits + 1] s)
           \<and> generate_state sample imresize g data labels n = Inl SampleError
           \<and> generate_digit_sequences sample imresize g data labels n = Inl SampleError"
    if ok: "sample_ok sample" and ll: "length data = length labels"
      and sc: "list_all (scales_to_glyph imresize) data"
  proof -
    have "5 * (n div 5) \<le> n" "0 \<le> n div 5" using n0 by presburger+
    then have "5 * ns \<le> nat n" by (simp add: ns_def max_digits_def)
    moreover have "length data \<le> 5" using assms(2) by (simp add: max_digits_def)
    then have "length data * ns \<le> 5 * ns" by (rule mult_le_mono1)
    ultimately have N: "length data * ns \<le> nat n" by (rule order_trans[rotated])
    have start: "filled imresize data labels (nat n) ns 0 (initial_state g n)"
      unfolding initial_state_def by (rule filled_start)
    have md: "length data \<le> max_digits" using assms(2) by simp
    from groups_loop[OF ll sc ok md le_refl N start]
    obtain s where s: "run_groups sample imresize data labels n pre (initial_state g n) = Inr s"
      and f: "filled imresize data labels (nat n) ns (length data * ns) s"
      unfolding run_groups_def ns_def pre_def by blast
    have d: "length (drawn s) = length data * nat (n div int max_digits)"
      using f by (simp add: filled_def ns_def)
    have e: "sample_body sample imresize data labels (length data + 1)
               (length data * nat (n div int max_digits)) s = Inl SampleError"
      by (simp add: sample_body_def random_sample_def)
    have r: "generate_state sample imresize g data labels n
             = run_groups sample imresize data labels n post s"
      unfolding gs split by (simp add: s)
    then have g: "generate_state sample imresize g data labels n = Inl SampleError"
      by (simp add: rest)
    then have "generate_digit_sequences sample imresize g data labels n = Inl SampleError"
      by (simp add: generate_digit_sequences_def)
    then show ?thesis
      using s d e r g unfolding pre_def post_def by blast
  qed
  have z: "generate_digit_sequences sample imresize g data labels 0 = Inr ([], [])"
  proof -
    have "run_groups sample imresize data labels 0 [1..<max_digits + 1] (initial_state g 0)
          = Inr (initial_state g 0)"
      unfolding run_groups_def by (rule for_each_skip) simp
    then show ?thesis
      by (simp add: generate_digit_sequences_def generate_state_run_groups initial_state_def
          expand_dims_def)
  qed
  show ?thesis using a b c z by blast
qed

theorem generate_small_corpus_fails_witness:
  "int max_digits \<le> 5 \<and> length [glyph 1] < max_digits
   \<and> sample_ok rotating_sample \<and> length [glyph 1] = length [7 :: int]
   \<and> list_all (scales_to_glyph nearest_resize) [glyph 1]
   \<and> (\<exists>s. run_groups rotating_sample nearest_resize [glyph 1] [7] 5 [1..<2] (initial_state 0 5)
              = Inr s
          \<and> length (drawn s) = 1
          \<and> sample_body rotating_sample nearest_resize [glyph 1] [7] 2 1 s = Inl SampleError)
   \<and> generate_digit_sequences rotating_sample nearest_resize 0 [glyph 1] [7] 5 = Inl SampleError
   \<and> generate_digit_sequences rotating_sample nearest_resize 0 [glyph 1] [7] 0 = Inr ([], [])
   \<and> int max_digits \<le> 5 \<and> length ([] :: image list) < max_digits
   \<and> generate_digit_sequences rotating_sample nearest_resize 0 [] [] 5 = Inl SampleError"
proof -
  have h: "int max_digits \<le> 5" "length [glyph 1] < max_digits"
    and h0: "length ([] :: image list) < max_digits"
    and p: "sample_ok rotating_sample" "length [glyph 1] = length [7 :: int]"
      "list_all (scales_to_glyph nearest_resize) [glyph 1]"
    by (simp_all add: max_digits_def rotating_sample_ok scales_to_glyph_nearest)
  have ns: "length [glyph 1] + 1 = 2" "length [glyph 1] * nat (5 div int max_digits) = 1"
    by (simp_all add: max_digits_def)
  note t = generate_small_corpus_fails[OF h, of rotating_sample nearest_resize 0 "[7]",
      unfolded ns]
  from t p obtain s where
    "run_groups rotating_sample nearest_resize [glyph 1] [7] 5 [1..<2] (initial_state 0 5) = Inr s"
    "length (drawn s) = 1"
    "sample_body rotating_sample nearest_resize [glyph 1] [7] 2 1 s = Inl SampleError"
    by blast
  moreover have "generate_digit_sequences rotating_sample nearest_resize 0 [glyph 1] [7] 5
      = Inl SampleError"
    "generate_digit_sequences rotating_sample nearest_resize 0 [glyph 1] [7] 0 = Inr ([], [])"
    using t p by blast+
  moreover have "generate_digit_sequences rotating_sample nearest_resize 0 [] [] 5 = Inl SampleError"
    using generate_small_corpus_fails[OF h(1) h0, of rotating_sample nearest_resize 0 "[]"]
    by simp
  ultimately show ?thesis using h h0 p by blast
qed

subsection \<open>The compositor has no side effects\<close>

lemma place_loop_st:
  assumes "a < length h" "h ! a = Images images"
  shows "for_each (place_digit_st f a (length h)) todo (h @ [Canvas c])
         = (case for_each (place_digit f images) todo c of
              Inl e \<Rightarrow> Inl e
            | Inr c' \<Rightarrow> Inr (h @ [Canvas c']))"
proof (induction todo arbitrary: c)
  case Nil
  then show ?case by simp
next
  case (Cons i todo)
  have step: "place_digit_st f a (length h) i (h @ [Canvas c])
        = (case place_digit f images i c of Inl e \<Rightarrow> Inl e | Inr c' \<Rightarrow> Inr (h @ [Canvas c']))"
    using assms by (simp add: place_digit_st_def deref_def nth_append split: sum.splits)
  show ?case
    by (cases "place_digit f images i c") (simp_all add: step Cons.IH)
qed

lemma concat_images_st_eq:
  assumes "a < length h" "h ! a = Images images"
  shows "concat_images_st f a h
         = (case concat_images f images of
              Inl e \<Rightarrow> Inl e
            | Inr c \<Rightarrow> Inr (length h, h @ [Canvas c]))"
  using assms
  by (simp add: concat_images_st_def deref_def alloc_def place_loop_st concat_images_def
      split: sum.splits)

lemma label_loop_st:
  assumes "b < length h" "h ! b = Labels labels"
  shows "fold (set_label_st b (length h)) todo (h @ [Labels v])
         = h @ [Labels (fold (\<lambda>i new_label.
                  new_label[i := (if i < length labels then labels ! i else 10)]) todo v)]"
proof (induction todo arbitrary: v)
  case Nil
  then show ?case by simp
next
  case (Cons i todo)
  have "set_label_st b (length h) i (h @ [Labels v])
        = h @ [Labels (v[i := (if i < length labels then labels ! i else 10)])]"
    using assms by (simp add: set_label_st_def deref_def nth_append)
  then show ?case by (simp add: Cons.IH)
qed

lemma concat_labels_st_eq:
  assumes "b < length h" "h ! b = Labels labels"
  shows "concat_labels_st b n h = Inr (length h, h @ [Labels (concat_labels labels n)])"
  using assms
  by (simp add: concat_labels_st_def deref_def alloc_def label_loop_st concat_labels_def)

lemma compose_st_eq:
  assumes "a < length h" "h ! a = Images images" "b < length h" "h ! b = Labels labels"
  shows "compose_st f a b h
         = (case compose f images labels of
              Inl e \<Rightarrow> Inl e
            | Inr (c, l) \<Rightarrow> Inr (length h, Suc (length h), h @ [Canvas c, Labels l]))"
proof (cases "concat_images f images")
  case (Inl e)
  then show ?thesis
    using assms by (simp add: compose_st_def compose_def concat_images_st_eq)
next
  case (Inr c)
  have "concat_labels_st b 5 (h @ [Canvas c])
        = Inr (length (h @ [Canvas c]), (h @ [Canvas c]) @ [Labels (concat_labels labels 5)])"
    using assms(3,4) by (intro concat_labels_st_eq) (simp_all add: nth_append)
  then show ?thesis
    using assms(1,2) Inr by (simp add: compose_st_def compose_def concat_images_st_eq)
qed

text \<open>
  Claim C9. Two calls of the compositor on stores that hold the same images and the same
  labels, at whatever references and next to whatever other arrays, either raise the same
  error or return a canvas and a label vector that are equal entry for entry, namely those of
  the pure function above; both results are freshly allocated and every array that was in
  the store before a call, its inputs among them, is unchanged after it.
\<close>

theorem compose_deterministic:
  assumes "a < length h" and "h ! a = Images images"
    and "b < length h" and "h ! b = Labels labels"
    and "a' < length h'" and "h' ! a' = Images images"
    and "b' < length h'" and "h' ! b' = Labels labels"
  shows "(\<exists>e. compose_st imresize a b h = Inl e \<and> compose_st imresize a' b' h' = Inl e)
         \<or> (\<exists>p q h2 p' q' h2'.
               compose_st imresize a b h = Inr (p, q, h2)
               \<and> compose_st imresize a' b' h' = Inr (p', q', h2')
               \<and> h2 ! p = h2' ! p' \<and> h2 ! q = h2' ! q'
               \<and> (\<exists>canvas label. compose imresize images labels = Inr (canvas, label)
                     \<and> h2 ! p = Canvas canvas \<and> h2 ! q = Labels label)
               \<and> take (length h) h2 = h \<and> take (length h') h2' = h'
               \<and> length h \<le> p \<and> length h \<le> q \<and> length h' \<le> p' \<and> length h' \<le> q')"
proof (cases "compose imresize images labels")
  case (Inl e)
  then show ?thesis
    using compose_st_eq[OF assms(1-4), of imresize] compose_st_eq[OF assms(5-8), of imresize]
    by simp
next
  case (Inr r)
  obtain c l where r: "r = (c, l)" by (cases r)
  have 1: "compose_st imresize a b h = Inr (length h, Suc (length h), h @ [Canvas c, Labels l])"
    using compose_st_eq[OF assms(1-4), of imresize] Inr r by simp
  have 2: "compose_st imresize a' b' h' = Inr (length h', Suc (length h'), h' @ [Canvas c, Labels l])"
    using compose_st_eq[OF assms(5-8), of imresize] Inr r by simp
  show ?thesis
    unfolding 1 2 using Inr r by (simp add: nth_append)
qed

theorem compose_deterministic_witness:
  "(0::nat) < length [Images [glyph 1], Labels [3]]
   \<and> [Images [glyph 1], Labels [3]] ! 0 = Images [glyph 1]
   \<and> (1::nat) < length [Images [glyph 1], Labels [3]]
   \<and> [Images [glyph 1], Labels [3]] ! 1 = Labels [3]
   \<and> (2::nat) < length [Labels [3], Canvas [], Images [glyph 1]]
   \<and> [Labels [3], Canvas [], Images [glyph 1]] ! 2 = Images [glyph 1]
   \<and> (0::nat) < length [Labels [3], Canvas [], Images [glyph 1]]
   \<and> [Labels [3], Canvas [], Images [glyph 1]] ! 0 = Labels [3]
   \<and> (\<exists>h2 h2'. compose_st nearest_resize 0 1 [Images [glyph 1], Labels [3]] = Inr (2, 3, h2)
         \<and> compose_st nearest_resize 2 0 [Labels [3], Canvas [], Images [glyph 1]] = Inr (3, 4, h2')
         \<and> h2 ! 2 = h2' ! 3 \<and> h2 ! 3 = h2' ! 4
         \<and> take 2 h2 = [Images [glyph 1], Labels [3]]
         \<and> take 3 h2' = [Labels [3], Canvas [], Images [glyph 1]])"
proof -
  let ?h = "[Images [glyph 1], Labels [3]]"
  let ?h' = "[Labels [3], Canvas [], Images [glyph 1]]"
  have h: "(0::nat) < length ?h" "?h ! 0 = Images [glyph 1]" "(1::nat) < length ?h"
    "?h ! 1 = Labels [3]" "(2::nat) < length ?h'" "?h' ! 2 = Images [glyph 1]"
    "(0::nat) < length ?h'" "?h' ! 0 = Labels [3]"
    by simp_all
  have ok: "compose nearest_resize [glyph 1] [3] \<noteq> Inl e" for e
    using compose_ok[of "[glyph 1]" nearest_resize "[3]"] scales_to_glyph_nearest[of 1]
    by (simp add: max_digits_def)
  have l: "length ?h = 2" "length ?h' = 3" by simp_all
  from compose_deterministic[OF h, of nearest_resize] 
  obtain p q h2 p' q' h2' where r:
    "compose_st nearest_resize 0 1 ?h = Inr (p, q, h2)"
    "compose_st nearest_resize 2 0 ?h' = Inr (p', q', h2')"
    "h2 ! p = h2' ! p'" "h2 ! q = h2' ! q'"
    "take (length ?h) h2 = ?h" "take (length ?h') h2' = ?h'"
    using compose_st_eq[OF h(1-4), of nearest_resize] ok
    by (auto split: sum.splits)
  have "p = 2 \<and> q = 3 \<and> p' = 3 \<and> q' = 4"
    using r(1,2) compose_st_eq[OF h(1-4), of nearest_resize] compose_st_eq[OF h(5-8), of nearest_resize]
    by (auto split: sum.splits prod.splits)
  then show ?thesis using h r unfolding l by blast
qed

end
